theory Spec2Isabelle
  imports Main "HOL-Library.Word"
begin

unbundle bit_operations_syntax

section \<open>Machine types and kernel helpers\<close>

text \<open>
  The drivers run on the 64-bit RISC-V SG2042: \<open>unsigned int\<close> and \<open>u32\<close> are
  32-bit words, \<open>unsigned long\<close> and \<open>u64\<close> are 64-bit words.
\<close>

type_synonym u32 = "32 word"
type_synonym u64 = "64 word"

section \<open>PLL control word (clk-sophgo-sg2042.c)\<close>

text \<open>\<open>struct sg2042_pll_ctrl\<close>.\<close>

record sg2042_pll_ctrl =
  freq :: u64
  fbdiv :: u32
  postdiv1 :: u32
  postdiv2 :: u32
  refdiv :: u32

text \<open>\<open>GENMASK(h, l)\<close> on a 32-bit register: bits \<open>l\<close> to \<open>h\<close> set.\<close>

definition GENMASK :: "nat \<Rightarrow> nat \<Rightarrow> u32" where
  "GENMASK h l = push_bit l (mask (h + 1 - l))"

definition PLLCTRL_FBDIV_SHIFT :: nat where "PLLCTRL_FBDIV_SHIFT = 16"
definition PLLCTRL_FBDIV_MASK :: u32 where
  "PLLCTRL_FBDIV_MASK = drop_bit PLLCTRL_FBDIV_SHIFT (GENMASK 27 16)"
definition PLLCTRL_POSTDIV2_SHIFT :: nat where "PLLCTRL_POSTDIV2_SHIFT = 12"
definition PLLCTRL_POSTDIV2_MASK :: u32 where
  "PLLCTRL_POSTDIV2_MASK = drop_bit PLLCTRL_POSTDIV2_SHIFT (GENMASK 14 12)"
definition PLLCTRL_POSTDIV1_SHIFT :: nat where "PLLCTRL_POSTDIV1_SHIFT = 8"
definition PLLCTRL_POSTDIV1_MASK :: u32 where
  "PLLCTRL_POSTDIV1_MASK = drop_bit PLLCTRL_POSTDIV1_SHIFT (GENMASK 10 8)"
definition PLLCTRL_REFDIV_SHIFT :: nat where "PLLCTRL_REFDIV_SHIFT = 0"
definition PLLCTRL_REFDIV_MASK :: u32 where
  "PLLCTRL_REFDIV_MASK = drop_bit PLLCTRL_REFDIV_SHIFT (GENMASK 5 0)"

definition sg2042_pll_ctrl_encode :: "sg2042_pll_ctrl \<Rightarrow> u32" where
  "sg2042_pll_ctrl_encode ctrl =
     push_bit PLLCTRL_FBDIV_SHIFT (fbdiv ctrl AND PLLCTRL_FBDIV_MASK) OR
     push_bit PLLCTRL_POSTDIV2_SHIFT (postdiv2 ctrl AND PLLCTRL_POSTDIV2_MASK) OR
     push_bit PLLCTRL_POSTDIV1_SHIFT (postdiv1 ctrl AND PLLCTRL_POSTDIV1_MASK) OR
     push_bit PLLCTRL_REFDIV_SHIFT (refdiv ctrl AND PLLCTRL_REFDIV_MASK)"

text \<open>
  \<open>sg2042_pll_ctrl_decode\<close> writes the four divider fields of \<open>*ctrl\<close> and leaves
  \<open>freq\<close> as it was.
\<close>

definition sg2042_pll_ctrl_decode :: "u32 \<Rightarrow> sg2042_pll_ctrl \<Rightarrow> sg2042_pll_ctrl" where
  "sg2042_pll_ctrl_decode reg_value ctrl =
     ctrl\<lparr>fbdiv := drop_bit PLLCTRL_FBDIV_SHIFT reg_value AND PLLCTRL_FBDIV_MASK,
          refdiv := drop_bit PLLCTRL_REFDIV_SHIFT reg_value AND PLLCTRL_REFDIV_MASK,
          postdiv1 := drop_bit PLLCTRL_POSTDIV1_SHIFT reg_value AND PLLCTRL_POSTDIV1_MASK,
          postdiv2 := drop_bit PLLCTRL_POSTDIV2_SHIFT reg_value AND PLLCTRL_POSTDIV2_MASK\<rparr>"


section \<open>PLL rate solver (clk-sophgo-sg2042.c)\<close>

text \<open>
  Undefined behaviour of the C code is a fault of the model: a function that would
  divide by zero returns \<open>Inl DivideByZero\<close>, and one that would read or write
  outside an allocated region returns \<open>Inl OutOfBounds\<close>.
\<close>

datatype fault = DivideByZero | OutOfBounds

text \<open>
  Modelled from the spec: the kernel macro \<open>do_div(n, base)\<close> is not part of the
  driver sources. The solver's divisions are unsigned 64-bit floor divisions; the
  macro replaces \<open>n\<close> by the quotient and takes its divisor as an unsigned 32-bit
  value. A zero divisor is the fault.
\<close>

definition do_div :: "u64 \<Rightarrow> u32 \<Rightarrow> fault + u64" where
  "do_div n base = (if base = 0 then Inl DivideByZero else Inr (n div ucast base))"

text \<open>\<open>abs_diff\<close> on \<open>unsigned long\<close>.\<close>

definition abs_diff :: "u64 \<Rightarrow> u64 \<Rightarrow> u64" where
  "abs_diff a b = (if a > b then a - b else b - a)"

definition KHZ :: u64 where "KHZ = 1000"
definition MHZ :: u64 where "MHZ = KHZ * KHZ"

definition REFDIV_MIN :: u32 where "REFDIV_MIN = 1"
definition REFDIV_MAX :: u32 where "REFDIV_MAX = 63"
definition FBDIV_MIN :: u32 where "FBDIV_MIN = 16"
definition FBDIV_MAX :: u32 where "FBDIV_MAX = 320"

definition PLL_FREF_SG2042 :: u64 where "PLL_FREF_SG2042 = 25 * MHZ"
definition PLL_FOUTPOSTDIV_MIN :: u64 where "PLL_FOUTPOSTDIV_MIN = 16 * MHZ"
definition PLL_FOUTPOSTDIV_MAX :: u64 where "PLL_FOUTPOSTDIV_MAX = 3200 * MHZ"
definition PLL_FOUTVCO_MIN :: u64 where "PLL_FOUTVCO_MIN = 800 * MHZ"
definition PLL_FOUTVCO_MAX :: u64 where "PLL_FOUTVCO_MAX = 3200 * MHZ"

definition EINVAL :: int where "EINVAL = 22"

text \<open>
  The table \<open>postdiv1_2\<close>: each row is \<open>{div1, div2, div1 * div2}\<close>, and
  \<open>POSTDIV_RESULT_INDEX\<close> selects the product.
\<close>

definition postdiv1_2 :: "(int \<times> int \<times> int) list" where
  "postdiv1_2 =
     [(2, 4,  8), (3, 3,  9), (2, 5, 10), (2, 6, 12),
      (2, 7, 14), (3, 5, 15), (4, 4, 16), (3, 6, 18),
      (4, 5, 20), (3, 7, 21), (4, 6, 24), (5, 5, 25),
      (4, 7, 28), (5, 6, 30), (5, 7, 35), (6, 6, 36),
      (6, 7, 42), (7, 7, 49)]"

text \<open>
  The array search of \<open>sg2042_pll_get_postdiv_1_2\<close>: the first row whose product
  is not below \<open>tmp0\<close> gives \<open>*postdiv1' = row[1]\<close> and \<open>*postdiv2' = row[0]\<close>;
  \<open>None\<close> when the loop runs off the table.
\<close>

fun postdiv_search :: "u64 \<Rightarrow> (int \<times> int \<times> int) list \<Rightarrow> (u32 \<times> u32) option" where
  "postdiv_search tmp0 [] = None"
| "postdiv_search tmp0 ((d0, d1, res) # rest) =
     (if tmp0 > of_int res then postdiv_search tmp0 rest
      else Some (of_int d1, of_int d0))"

text \<open>
  The value \<open>tmp0 = ((prate / REFDIV) * FBDIV) / rate\<close> that the function computes
  first: the product \<open>POSTDIV1 * POSTDIV2\<close> it is looking for.
\<close>

definition postdiv_tmp0 :: "u64 \<Rightarrow> u64 \<Rightarrow> u32 \<Rightarrow> u32 \<Rightarrow> fault + u64" where
  "postdiv_tmp0 rate prate fbdiv' refdiv' =
     (case do_div prate refdiv' of
        Inl e \<Rightarrow> Inl e
      | Inr tmp0 \<Rightarrow> do_div (tmp0 * ucast fbdiv') (ucast rate))"

text \<open>
  The choice of the divider pair from \<open>tmp0\<close>. \<open>None\<close> is the return value
  \<open>-EINVAL\<close>, with \<open>*postdiv1'\<close> and \<open>*postdiv2'\<close> not written.
\<close>

definition postdiv_of_tmp0 :: "u64 \<Rightarrow> (u32 \<times> u32) option" where
  "postdiv_of_tmp0 tmp0 =
     (if tmp0 \<le> 7 then Some (ucast tmp0, 1) else postdiv_search tmp0 postdiv1_2)"

definition sg2042_pll_get_postdiv_1_2 ::
  "u64 \<Rightarrow> u64 \<Rightarrow> u32 \<Rightarrow> u32 \<Rightarrow> fault + (u32 \<times> u32) option" where
  "sg2042_pll_get_postdiv_1_2 rate prate fbdiv' refdiv' =
     (case postdiv_tmp0 rate prate fbdiv' refdiv' of
        Inl e \<Rightarrow> Inl e
      | Inr tmp0 \<Rightarrow> Inr (postdiv_of_tmp0 tmp0))"

text \<open>\<open>FOUTVCO = FREF * FBDIV / REFDIV\<close>, the product taken in a \<open>u64\<close>.\<close>

definition sg2042_foutvco :: "u64 \<Rightarrow> u32 \<Rightarrow> u32 \<Rightarrow> fault + u64" where
  "sg2042_foutvco parent_rate fbdiv' refdiv' = do_div (parent_rate * ucast fbdiv') refdiv'"

text \<open>
  One pass of the inner loop of \<open>sg2042_get_pll_ctl_setting\<close>. The result is
  the new \<open>*best\<close> and whether the function returned from inside the loop
  (\<open>foutpostdiv == req_rate\<close>).
\<close>

definition fbdiv_body ::
  "u64 \<Rightarrow> u64 \<Rightarrow> u32 \<Rightarrow> u32 \<Rightarrow> sg2042_pll_ctrl \<Rightarrow> fault + (bool \<times> sg2042_pll_ctrl)" where
  "fbdiv_body req_rate parent_rate refdiv' fbdiv' best =
     (case sg2042_foutvco parent_rate fbdiv' refdiv' of
        Inl e \<Rightarrow> Inl e
      | Inr foutvco \<Rightarrow>
          if foutvco < PLL_FOUTVCO_MIN \<or> foutvco > PLL_FOUTVCO_MAX then Inr (False, best)
          else
            (case sg2042_pll_get_postdiv_1_2 req_rate parent_rate fbdiv' refdiv' of
               Inl e \<Rightarrow> Inl e
             | Inr None \<Rightarrow> Inr (False, best)
             | Inr (Some (postdiv1', postdiv2')) \<Rightarrow>
                 (case do_div foutvco (postdiv1' * postdiv2') of
                    Inl e \<Rightarrow> Inl e
                  | Inr foutpostdiv \<Rightarrow>
                      if abs_diff foutpostdiv req_rate < abs_diff (freq best) req_rate
                      then Inr (foutpostdiv = req_rate,
                                best\<lparr>freq := foutpostdiv, refdiv := refdiv', fbdiv := fbdiv',
                                     postdiv1 := postdiv1', postdiv2 := postdiv2'\<rparr>)
                      else Inr (False, best))))"

function fbdiv_loop ::
  "u64 \<Rightarrow> u64 \<Rightarrow> u32 \<Rightarrow> u32 \<Rightarrow> sg2042_pll_ctrl \<Rightarrow> fault + (bool \<times> sg2042_pll_ctrl)" where
  "fbdiv_loop req_rate parent_rate refdiv' fbdiv' best =
     (if fbdiv' < FBDIV_MAX + 1 then
        (case fbdiv_body req_rate parent_rate refdiv' fbdiv' best of
           Inl e \<Rightarrow> Inl e
         | Inr (returned, best') \<Rightarrow>
             if returned then Inr (True, best')
             else fbdiv_loop req_rate parent_rate refdiv' (fbdiv' + 1) best')
      else Inr (False, best))"
  by pat_completeness auto
termination
  by (relation "measure (\<lambda>(req_rate, parent_rate, refdiv', fbdiv', best). 321 - unat fbdiv')")
     (auto simp: FBDIV_MAX_def word_less_nat_alt unat_word_ariths)

declare fbdiv_loop.simps [simp del]

text \<open>
  One pass of the outer loop: \<open>FREF / REFDIV\<close> is checked first, and the
  \<open>continue\<close> leaves \<open>*best\<close> alone.
\<close>

definition refdiv_body ::
  "u64 \<Rightarrow> u64 \<Rightarrow> u32 \<Rightarrow> sg2042_pll_ctrl \<Rightarrow> fault + (bool \<times> sg2042_pll_ctrl)" where
  "refdiv_body req_rate parent_rate refdiv' best =
     (case do_div parent_rate refdiv' of
        Inl e \<Rightarrow> Inl e
      | Inr tmp \<Rightarrow>
          if tmp \<le> 10 then Inr (False, best)
          else fbdiv_loop req_rate parent_rate refdiv' FBDIV_MIN best)"

function refdiv_loop ::
  "u64 \<Rightarrow> u64 \<Rightarrow> u32 \<Rightarrow> sg2042_pll_ctrl \<Rightarrow> fault + (bool \<times> sg2042_pll_ctrl)" where
  "refdiv_loop req_rate parent_rate refdiv' best =
     (if refdiv' < REFDIV_MAX + 1 then
        (case refdiv_body req_rate parent_rate refdiv' best of
           Inl e \<Rightarrow> Inl e
         | Inr (returned, best') \<Rightarrow>
             if returned then Inr (True, best')
             else refdiv_loop req_rate parent_rate (refdiv' + 1) best')
      else Inr (False, best))"
  by pat_completeness auto
termination
  by (relation "measure (\<lambda>(req_rate, parent_rate, refdiv', best). 64 - unat refdiv')")
     (auto simp: REFDIV_MAX_def word_less_nat_alt unat_word_ariths)

declare refdiv_loop.simps [simp del]

text \<open>\<open>memset(best, 0, sizeof(struct sg2042_pll_ctrl))\<close>.\<close>

definition zero_ctrl :: sg2042_pll_ctrl where
  "zero_ctrl = \<lparr>freq = 0, fbdiv = 0, postdiv1 = 0, postdiv2 = 0, refdiv = 0\<rparr>"

text \<open>
  \<open>sg2042_get_pll_ctl_setting\<close>: the return value (\<open>0\<close> or \<open>-EINVAL\<close>) and
  \<open>*best\<close>, which the two early returns do not touch.
\<close>

definition sg2042_get_pll_ctl_setting ::
  "sg2042_pll_ctrl \<Rightarrow> u64 \<Rightarrow> u64 \<Rightarrow> fault + (int \<times> sg2042_pll_ctrl)" where
  "sg2042_get_pll_ctl_setting best req_rate parent_rate =
     (if parent_rate \<noteq> PLL_FREF_SG2042 then Inr (- EINVAL, best)
      else if req_rate < PLL_FOUTPOSTDIV_MIN \<or> req_rate > PLL_FOUTPOSTDIV_MAX
      then Inr (- EINVAL, best)
      else
        (case refdiv_loop req_rate parent_rate REFDIV_MIN zero_ctrl of
           Inl e \<Rightarrow> Inl e
         | Inr (returned, best') \<Rightarrow>
             if returned then Inr (0, best')
             else if freq best' = 0 then Inr (- EINVAL, best')
             else Inr (0, best')))"


subsection \<open>Candidates of the search\<close>

text \<open>
  The setting that one pass of the inner loop forms before it compares it with
  \<open>*best\<close>: the pass's \<open>refdiv\<close> and \<open>fbdiv\<close>, the divider pair derived for them
  and \<open>FOUTPOSTDIV\<close>. \<open>None\<close> when the pass ends in one of its \<open>continue\<close>s.
  It restates the first half of \<open>fbdiv_body\<close> (lemma \<open>fbdiv_body_candidate\<close>).
\<close>

definition pll_candidate :: "u64 \<Rightarrow> u64 \<Rightarrow> u32 \<Rightarrow> u32 \<Rightarrow> fault + sg2042_pll_ctrl option" where
  "pll_candidate req_rate parent_rate refdiv' fbdiv' =
     (case sg2042_foutvco parent_rate fbdiv' refdiv' of
        Inl e \<Rightarrow> Inl e
      | Inr foutvco \<Rightarrow>
          if foutvco < PLL_FOUTVCO_MIN \<or> foutvco > PLL_FOUTVCO_MAX then Inr None
          else
            (case sg2042_pll_get_postdiv_1_2 req_rate parent_rate fbdiv' refdiv' of
               Inl e \<Rightarrow> Inl e
             | Inr None \<Rightarrow> Inr None
             | Inr (Some (postdiv1', postdiv2')) \<Rightarrow>
                 (case do_div foutvco (postdiv1' * postdiv2') of
                    Inl e \<Rightarrow> Inl e
                  | Inr foutpostdiv \<Rightarrow>
                      Inr (Some \<lparr>freq = foutpostdiv, fbdiv = fbdiv', postdiv1 = postdiv1',
                                 postdiv2 = postdiv2', refdiv = refdiv'\<rparr>))))"

text \<open>
  The pairs \<open>(refdiv, fbdiv)\<close> that the two loops go through, with the check of
  \<open>FREF / REFDIV\<close> passed.
\<close>

definition pll_visited :: "u64 \<Rightarrow> u32 \<Rightarrow> u32 \<Rightarrow> bool" where
  "pll_visited parent_rate refdiv' fbdiv' \<longleftrightarrow>
     REFDIV_MIN \<le> refdiv' \<and> refdiv' \<le> REFDIV_MAX \<and>
     FBDIV_MIN \<le> fbdiv' \<and> fbdiv' \<le> FBDIV_MAX \<and>
     10 < parent_rate div ucast refdiv'"

subsection \<open>The specification's parameter space\<close>

text \<open>
  The specification's words, on natural numbers: a parameter combination
  satisfies the constraints when the dividers are in their ranges, the VCO
  frequency \<open>fref * fbdiv / refdiv\<close> lies in \<open>[vco_min, vco_max]\<close> = [800 MHz,
  3200 MHz] and \<open>fref / refdiv\<close> exceeds the stability floor; its output is
  \<open>fout = fout_vco / (postdiv1 * postdiv2)\<close>.
\<close>

definition spec_fout :: "nat \<Rightarrow> nat \<Rightarrow> nat \<Rightarrow> nat \<Rightarrow> nat \<Rightarrow> nat" where
  "spec_fout fref refdiv' fbdiv' postdiv1' postdiv2' =
     fref * fbdiv' div refdiv' div (postdiv1' * postdiv2')"

definition spec_admissible :: "nat \<Rightarrow> nat \<Rightarrow> nat \<Rightarrow> nat \<Rightarrow> nat \<Rightarrow> nat \<Rightarrow> bool" where
  "spec_admissible floor' fref refdiv' fbdiv' postdiv1' postdiv2' \<longleftrightarrow>
     1 \<le> refdiv' \<and> refdiv' \<le> 63 \<and> 16 \<le> fbdiv' \<and> fbdiv' \<le> 320 \<and>
     1 \<le> postdiv1' \<and> postdiv1' \<le> 7 \<and> 1 \<le> postdiv2' \<and> postdiv2' \<le> 7 \<and>
     800000000 \<le> fref * fbdiv' div refdiv' \<and> fref * fbdiv' div refdiv' \<le> 3200000000 \<and>
     floor' < fref div refdiv'"

section \<open>PLL rate change of the older driver (drivers/clk/sophgo/clk.c)\<close>

text \<open>
  \<open>struct mango_pll_ctrl\<close> has the fields of \<open>struct sg2042_pll_ctrl\<close>, and
  \<open>ENCODE_PLL_CTRL\<close> packs them as \<open>sg2042_pll_ctrl_encode\<close> does.
\<close>

type_synonym mango_pll_ctrl = sg2042_pll_ctrl

definition ENCODE_PLL_CTRL :: "u32 \<Rightarrow> u32 \<Rightarrow> u32 \<Rightarrow> u32 \<Rightarrow> u32" where
  "ENCODE_PLL_CTRL fbdiv' p1 p2 refdiv' =
     push_bit 16 (fbdiv' AND 0xfff) OR push_bit 12 (p2 AND 0x7) OR
     push_bit 8 (p1 AND 0x7) OR (refdiv' AND 0x3f)"

definition mango_REFDIV_MIN :: u32 where "mango_REFDIV_MIN = 1"
definition mango_REFDIV_MAX :: u32 where "mango_REFDIV_MAX = 64"
definition mango_FBDIV_MIN :: u32 where "mango_FBDIV_MIN = 16"
definition mango_FBDIV_MAX :: u32 where "mango_FBDIV_MAX = 321"
definition PLL_FREQ_MIN :: u64 where "PLL_FREQ_MIN = 16 * MHZ"
definition PLL_FREQ_MAX :: u64 where "PLL_FREQ_MAX = 3200 * MHZ"

text \<open>
  \<open>__mango_pll_get_postdiv_1_2\<close> computes the same \<open>tmp0\<close> and searches the same
  table; it returns \<open>-ESPIPE\<close> (here \<open>None\<close>) when the search runs off the table.
\<close>

definition mango_pll_get_postdiv_1_2 ::
  "u64 \<Rightarrow> u64 \<Rightarrow> u32 \<Rightarrow> u32 \<Rightarrow> fault + (u32 \<times> u32) option" where
  "mango_pll_get_postdiv_1_2 rate prate fbdiv' refdiv' =
     (case postdiv_tmp0 rate prate fbdiv' refdiv' of
        Inl e \<Rightarrow> Inl e
      | Inr tmp0 \<Rightarrow> Inr (postdiv_of_tmp0 tmp0))"

text \<open>
  \<open>foutvco = fref * fbdiv / refdiv\<close> in \<open>__mango_get_pll_ctl_setting\<close>: \<open>fref\<close>,
  \<open>fbdiv\<close> and \<open>refdiv\<close> are \<open>unsigned int\<close>, so the product and the quotient are
  computed in 32 bits and then stored in the \<open>unsigned long foutvco\<close>.
\<close>

definition mango_foutvco :: "u32 \<Rightarrow> u32 \<Rightarrow> u32 \<Rightarrow> fault + u64" where
  "mango_foutvco fref fbdiv' refdiv' =
     (if refdiv' = 0 then Inl DivideByZero
      else Inr (ucast (fref * fbdiv' div refdiv')))"

text \<open>
  One pass of the inner loop of \<open>__mango_get_pll_ctl_setting\<close>.
  \<open>foutvco / (postdiv1 * postdiv2)\<close> is a plain division.
\<close>

definition mango_fbdiv_body ::
  "u64 \<Rightarrow> u32 \<Rightarrow> u32 \<Rightarrow> u32 \<Rightarrow> mango_pll_ctrl \<Rightarrow> fault + (bool \<times> mango_pll_ctrl)" where
  "mango_fbdiv_body req_rate fref refdiv' fbdiv' best =
     (case mango_foutvco fref fbdiv' refdiv' of
        Inl e \<Rightarrow> Inl e
      | Inr foutvco \<Rightarrow>
        if foutvco < PLL_FREQ_MIN \<or> foutvco > PLL_FREQ_MAX \<or> fref div refdiv' < 10
        then Inr (False, best)
        else
          (case mango_pll_get_postdiv_1_2 req_rate (ucast fref) fbdiv' refdiv' of
             Inl e \<Rightarrow> Inl e
           | Inr None \<Rightarrow> Inr (False, best)
           | Inr (Some (postdiv1', postdiv2')) \<Rightarrow>
               if postdiv1' * postdiv2' = 0 then Inl DivideByZero
               else
                 let tmp = foutvco div ucast (postdiv1' * postdiv2') in
                 if abs_diff tmp req_rate < abs_diff (freq best) req_rate
                 then Inr (tmp = req_rate,
                           best\<lparr>freq := tmp, refdiv := refdiv', fbdiv := fbdiv',
                                postdiv1 := postdiv1', postdiv2 := postdiv2'\<rparr>)
                 else Inr (False, best)))"

function mango_fbdiv_loop ::
  "u64 \<Rightarrow> u32 \<Rightarrow> u32 \<Rightarrow> u32 \<Rightarrow> mango_pll_ctrl \<Rightarrow> fault + (bool \<times> mango_pll_ctrl)" where
  "mango_fbdiv_loop req_rate fref refdiv' fbdiv' best =
     (if fbdiv' < mango_FBDIV_MAX + 1 then
        (case mango_fbdiv_body req_rate fref refdiv' fbdiv' best of
           Inl e \<Rightarrow> Inl e
         | Inr (returned, best') \<Rightarrow>
             if returned then Inr (True, best')
             else mango_fbdiv_loop req_rate fref refdiv' (fbdiv' + 1) best')
      else Inr (False, best))"
  by pat_completeness auto
termination
  by (relation "measure (\<lambda>(req_rate, fref, refdiv', fbdiv', best). 322 - unat fbdiv')")
     (auto simp: mango_FBDIV_MAX_def word_less_nat_alt unat_word_ariths)

declare mango_fbdiv_loop.simps [simp del]

function mango_refdiv_loop ::
  "u64 \<Rightarrow> u32 \<Rightarrow> u32 \<Rightarrow> mango_pll_ctrl \<Rightarrow> fault + (bool \<times> mango_pll_ctrl)" where
  "mango_refdiv_loop req_rate fref refdiv' best =
     (if refdiv' < mango_REFDIV_MAX + 1 then
        (case mango_fbdiv_loop req_rate fref refdiv' mango_FBDIV_MIN best of
           Inl e \<Rightarrow> Inl e
         | Inr (returned, best') \<Rightarrow>
             if returned then Inr (True, best')
             else mango_refdiv_loop req_rate fref (refdiv' + 1) best')
      else Inr (False, best))"
  by pat_completeness auto
termination
  by (relation "measure (\<lambda>(req_rate, fref, refdiv', best). 65 - unat refdiv')")
     (auto simp: mango_REFDIV_MAX_def word_less_nat_alt unat_word_ariths)

declare mango_refdiv_loop.simps [simp del]

text \<open>
  \<open>__mango_get_pll_ctl_setting\<close> always returns \<open>0\<close>; the result is \<open>*best\<close>.
  \<open>fref = parent_rate\<close> truncates the parent rate to 32 bits.
\<close>

definition mango_get_pll_ctl_setting ::
  "mango_pll_ctrl \<Rightarrow> u64 \<Rightarrow> u64 \<Rightarrow> fault + mango_pll_ctrl" where
  "mango_get_pll_ctl_setting best req_rate parent_rate =
     (case mango_refdiv_loop req_rate (ucast parent_rate) mango_REFDIV_MIN best of
        Inl e \<Rightarrow> Inl e
      | Inr (returned, best') \<Rightarrow> Inr best')"

text \<open>
  The register map: the values of the registers by offset, and the list of the
  writes made, oldest first. Registers keep what was written to them; the
  hardware changing a register by itself is outside the model.
\<close>

record regmap =
  regs :: "u32 \<Rightarrow> u32"
  wlog :: "(u32 \<times> u32) list"

definition regmap_read :: "regmap \<Rightarrow> u32 \<Rightarrow> u32" where
  "regmap_read m off = regs m off"

definition regmap_write :: "regmap \<Rightarrow> u32 \<Rightarrow> u32 \<Rightarrow> regmap" where
  "regmap_write m off v = m\<lparr>regs := (regs m)(off := v), wlog := wlog m @ [(off, v)]\<rparr>"

text \<open>The register fields of \<open>struct mango_pll_clock\<close>.\<close>

record mango_pll_clock =
  offset_status :: u32
  offset_enable :: u32
  offset_ctrl :: u32
  shift_status_lock :: "8 word"
  shift_status_updating :: "8 word"
  shift_enable :: "8 word"

text \<open>
  The two polling loops of \<open>__mango_pll_enable\<close>. They have no exit but the
  awaited bit (the timeout only prints a warning), so a loop that does not
  return is \<open>None\<close>. Inside the loops the source reads the register at offset
  \<open>shift_status_lock\<close>, respectively \<open>shift_status_updating\<close>.
\<close>

partial_function (option) mango_wait_lock :: "regmap \<Rightarrow> mango_pll_clock \<Rightarrow> u32 \<Rightarrow> u32 option" where
  "mango_wait_lock m pll v =
     (if \<not> bit (drop_bit (unat (shift_status_lock pll)) v) 0
      then mango_wait_lock m pll (regmap_read m (ucast (shift_status_lock pll)))
      else Some v)"

declare mango_wait_lock.simps [code]

partial_function (option) mango_wait_updating :: "regmap \<Rightarrow> mango_pll_clock \<Rightarrow> u32 \<Rightarrow> u32 option" where
  "mango_wait_updating m pll v =
     (if bit (drop_bit (unat (shift_status_updating pll)) v) 0
      then mango_wait_updating m pll (regmap_read m (ucast (shift_status_updating pll)))
      else Some v)"

declare mango_wait_updating.simps [code]

definition mango_pll_enable :: "regmap \<Rightarrow> mango_pll_clock \<Rightarrow> bool \<Rightarrow> (int \<times> regmap) option" where
  "mango_pll_enable m pll en =
     (if en then
        (case mango_wait_lock m pll (regmap_read m (offset_status pll)) of
           None \<Rightarrow> None
         | Some _ \<Rightarrow>
             (case mango_wait_updating m pll
                     (regmap_read m (ucast (shift_status_updating pll))) of
                None \<Rightarrow> None
              | Some _ \<Rightarrow>
                  let v = regmap_read m (offset_enable pll) in
                  Some (0, regmap_write m (offset_enable pll)
                             (v OR push_bit (unat (shift_enable pll)) 1))))
      else
        let v = regmap_read m (offset_enable pll) in
        Some (0, regmap_write m (offset_enable pll)
                   (v AND NOT (push_bit (unat (shift_enable pll)) 1))))"

text \<open>
  \<open>mango_clk_pll_set_rate\<close>: the return value and the register map afterwards.
  \<open>None\<close> is a polling loop that does not return, \<open>Inl\<close> a fault of the search.
\<close>

definition mango_clk_pll_set_rate ::
  "mango_pll_clock \<Rightarrow> regmap \<Rightarrow> u64 \<Rightarrow> u64 \<Rightarrow> (fault + int \<times> regmap) option" where
  "mango_clk_pll_set_rate pll m rate parent_rate =
     (case mango_pll_enable m pll False of
        None \<Rightarrow> None
      | Some (r, m1) \<Rightarrow>
          if r \<noteq> 0 then Some (Inr (0, m1))
          else
            (case mango_get_pll_ctl_setting zero_ctrl rate parent_rate of
               Inl e \<Rightarrow> Some (Inl e)
             | Inr pctrl_table \<Rightarrow>
                 if freq pctrl_table = 0 then Some (Inr (0, m1))
                 else
                   let v = ENCODE_PLL_CTRL (fbdiv pctrl_table) (postdiv1 pctrl_table)
                             (postdiv2 pctrl_table) (refdiv pctrl_table);
                       m2 = regmap_write m1 (offset_ctrl pll) v
                   in (case mango_pll_enable m2 pll True of
                         None \<Rightarrow> None
                       | Some (_, m3) \<Rightarrow> Some (Inr (0, m3)))))"

subsection \<open>Candidates of the older search\<close>

text \<open>
  The setting that one pass of the inner loop of \<open>__mango_get_pll_ctl_setting\<close>
  forms before it compares it with \<open>*best\<close>; \<open>None\<close> when the pass ends in one of
  its \<open>continue\<close>s (lemma \<open>mango_fbdiv_body_candidate\<close>). \<open>mango_visited\<close> holds of
  the pairs \<open>(refdiv, fbdiv)\<close> that the two loops go through.
\<close>

definition mango_candidate :: "u64 \<Rightarrow> u32 \<Rightarrow> u32 \<Rightarrow> u32 \<Rightarrow> fault + mango_pll_ctrl option" where
  "mango_candidate req_rate fref refdiv' fbdiv' =
     (case mango_foutvco fref fbdiv' refdiv' of
        Inl e \<Rightarrow> Inl e
      | Inr foutvco \<Rightarrow>
        if foutvco < PLL_FREQ_MIN \<or> foutvco > PLL_FREQ_MAX \<or> fref div refdiv' < 10
        then Inr None
        else
          (case mango_pll_get_postdiv_1_2 req_rate (ucast fref) fbdiv' refdiv' of
             Inl e \<Rightarrow> Inl e
           | Inr None \<Rightarrow> Inr None
           | Inr (Some (postdiv1', postdiv2')) \<Rightarrow>
               if postdiv1' * postdiv2' = 0 then Inl DivideByZero
               else Inr (Some \<lparr>freq = foutvco div ucast (postdiv1' * postdiv2'),
                                fbdiv = fbdiv', postdiv1 = postdiv1', postdiv2 = postdiv2',
                                refdiv = refdiv'\<rparr>)))"

definition mango_visited :: "u32 \<Rightarrow> u32 \<Rightarrow> bool" where
  "mango_visited refdiv' fbdiv' \<longleftrightarrow>
     mango_REFDIV_MIN \<le> refdiv' \<and> refdiv' \<le> mango_REFDIV_MAX \<and>
     mango_FBDIV_MIN \<le> fbdiv' \<and> fbdiv' \<le> mango_FBDIV_MAX"

section \<open>MSI vectors of the PCIe host (pcie-cadence-sophgo.c)\<close>

definition MAX_MSI_IRQS :: nat where "MAX_MSI_IRQS = 512"
definition MAX_MSI_IRQS_PER_CTRL :: nat where "MAX_MSI_IRQS_PER_CTRL = 1"
definition ENOSPC :: int where "ENOSPC = 28"
definition ENOMEM :: int where "ENOMEM = 12"

datatype irqreturn = IRQ_NONE | IRQ_HANDLED

text \<open>
  The fields of \<open>struct sg2042_pcie\<close> that the MSI code uses.
  \<open>DECLARE_BITMAP(msi_irq_in_use, MAX_MSI_IRQS)\<close> is a 512-bit word; \<open>msi_page\<close>
  holds the 32-bit entries of the shared status region by entry number (the
  region has 2048 bytes, that is 512 entries); \<open>irq_domain_parent\<close> stands for
  \<open>irq_find_mapping(pcie->irq_domain_parent, hwirq)\<close>, the Linux interrupt number
  mapped to a hardware number, \<open>0\<close> when there is none.
\<close>

record sg2042_pcie =
  num_vectors :: u32
  num_applied_vecs :: u32
  msi_irq_in_use :: "512 word"
  msi_page :: "nat \<Rightarrow> u32"
  irq_domain_parent :: "u32 \<Rightarrow> u32"

subsection \<open>Kernel bitmap helpers\<close>

text \<open>
  Modelled from the spec: \<open>order_base_2\<close> is a kernel macro that is not part of
  the driver sources. It gives the order of the power-of-two region that holds
  \<open>n\<close> vectors: the least \<open>k\<close> with \<open>n \<le> 2 ^ k\<close>.
\<close>

fun ilog2 :: "nat \<Rightarrow> nat" where
  "ilog2 n = (if n < 2 then 0 else Suc (ilog2 (n div 2)))"

declare ilog2.simps [simp del]

definition order_base_2 :: "u32 \<Rightarrow> nat" where
  "order_base_2 n = (if 1 < unat n then ilog2 (unat n - 1) + 1 else 0)"

text \<open>Whether the \<open>len\<close> bits from \<open>pos\<close> are all clear.\<close>

definition region_free :: "512 word \<Rightarrow> nat \<Rightarrow> nat \<Rightarrow> bool" where
  "region_free bm pos len = list_all (\<lambda>i. \<not> bit bm i) [pos..<pos + len]"

definition bitmap_set :: "512 word \<Rightarrow> nat \<Rightarrow> nat \<Rightarrow> 512 word" where
  "bitmap_set bm pos len = fold (\<lambda>i w. set_bit i w) [pos..<pos + len] bm"

definition bitmap_clear :: "512 word \<Rightarrow> nat \<Rightarrow> nat \<Rightarrow> 512 word" where
  "bitmap_clear bm pos len = fold (\<lambda>i w. unset_bit i w) [pos..<pos + len] bm"

text \<open>
  Modelled from the spec: \<open>bitmap_find_free_region\<close> is a kernel function that is
  not part of the driver sources. It finds a contiguous free region of
  \<open>2 ^ order\<close> bits among the first \<open>bits\<close> bits, first fit, the region aligned
  to its size, marks it allocated and returns its base index; when there is no
  such region it returns \<open>-ENOMEM\<close> and leaves the bitmap alone.
\<close>

function find_free_region_from :: "512 word \<Rightarrow> nat \<Rightarrow> nat \<Rightarrow> nat \<Rightarrow> int \<times> 512 word" where
  "find_free_region_from bm bits order pos =
     (if pos + 2 ^ order \<le> bits then
        (if region_free bm pos (2 ^ order) then (int pos, bitmap_set bm pos (2 ^ order))
         else find_free_region_from bm bits order (pos + 2 ^ order))
      else (- ENOMEM, bm))"
  by pat_completeness auto
termination
proof (relation "measure (\<lambda>(bm, bits, order, pos). bits - pos)")
  show "wf (measure (\<lambda>(bm, bits, order, pos). bits - pos))"
    by simp
next
  fix bm :: "512 word" and bits order pos :: nat
  assume "pos + 2 ^ order \<le> bits"
  moreover have "0 < (2::nat) ^ order"
    by simp
  ultimately have "bits - (pos + 2 ^ order) < bits - pos"
    by linarith
  then show "((bm, bits, order, pos + 2 ^ order), (bm, bits, order, pos))
             \<in> measure (\<lambda>(bm, bits, order, pos). bits - pos)"
    by simp
qed

declare find_free_region_from.simps [simp del]

definition bitmap_find_free_region :: "512 word \<Rightarrow> nat \<Rightarrow> nat \<Rightarrow> int \<times> 512 word" where
  "bitmap_find_free_region bm bits order = find_free_region_from bm bits order 0"

text \<open>
  Modelled from the spec: \<open>bitmap_release_region\<close>, the kernel function that
  releases the region of \<open>2 ^ order\<close> bits at \<open>pos\<close> back to the bitmap.
\<close>

definition bitmap_release_region :: "512 word \<Rightarrow> nat \<Rightarrow> nat \<Rightarrow> 512 word" where
  "bitmap_release_region bm pos order = bitmap_clear bm pos (2 ^ order)"

text \<open>
  Modelled from the spec: \<open>find_next_bit(addr, size, offset)\<close>, the kernel function
  that returns the number of the first set bit of \<open>*addr\<close> from \<open>offset\<close> on and
  below \<open>size\<close>, and \<open>size\<close> when there is none.
\<close>

function find_next_bit :: "u64 \<Rightarrow> nat \<Rightarrow> nat \<Rightarrow> nat" where
  "find_next_bit val size' offset =
     (if offset < size' then
        (if bit val offset then offset else find_next_bit val size' (offset + 1))
      else size')"
  by pat_completeness auto
termination
  by (relation "measure (\<lambda>(val, size', offset). size' - offset)") auto

declare find_next_bit.simps [simp del]

subsection \<open>Allocation and release\<close>

text \<open>
  \<open>cdns_pcie_irq_domain_alloc\<close>: the return value, the calls
  \<open>irq_domain_set_info(domain, virq + i, bit + i, ...)\<close> it makes, as pairs
  \<open>(virq + i, bit + i)\<close>, and the driver state afterwards.
\<close>

definition cdns_pcie_irq_domain_alloc ::
  "sg2042_pcie \<Rightarrow> u32 \<Rightarrow> u32 \<Rightarrow> int \<times> (u32 \<times> int) list \<times> sg2042_pcie" where
  "cdns_pcie_irq_domain_alloc pcie virq nr_irqs =
     (let (bit', bm) = bitmap_find_free_region (msi_irq_in_use pcie)
                         (unat (num_vectors pcie)) (order_base_2 nr_irqs);
          pcie' = pcie\<lparr>msi_irq_in_use := bm\<rparr>
      in if bit' < 0 then (- ENOSPC, [], pcie')
         else (0, map (\<lambda>i. (virq + of_nat i, bit' + int i)) [0..<unat nr_irqs], pcie'))"

text \<open>
  \<open>cdns_pcie_irq_domain_free\<close>; \<open>hwirq\<close> is \<open>d->hwirq\<close> of the interrupt data that
  the kernel keeps for \<open>virq\<close>.
\<close>

definition cdns_pcie_irq_domain_free :: "sg2042_pcie \<Rightarrow> nat \<Rightarrow> u32 \<Rightarrow> sg2042_pcie" where
  "cdns_pcie_irq_domain_free pcie hwirq nr_irqs =
     pcie\<lparr>msi_irq_in_use :=
            bitmap_release_region (msi_irq_in_use pcie) hwirq (order_base_2 nr_irqs)\<rparr>"

subsection \<open>Dispatch\<close>

definition BYTE_NUM_PER_MSI_VEC :: u32 where "BYTE_NUM_PER_MSI_VEC = 4"

text \<open>The size of the region: \<open>dma_alloc_coherent(dev, 2048, ...)\<close>.\<close>

definition MSI_PAGE_BYTES :: nat where "MSI_PAGE_BYTES = 2048"

text \<open>
  The entry that \<open>readl\<close> and \<open>writel\<close> at
  \<open>msi_page + i * BYTE_NUM_PER_MSI_VEC\<close> touch. \<open>i\<close> is a \<open>u32\<close> and the product
  is taken in 32 bits, so the offset wraps at \<open>2 ^ 32\<close>. An access that does not
  lie within the 2048 bytes of the region is the fault \<open>OutOfBounds\<close>.
\<close>

definition msi_entry :: "u32 \<Rightarrow> fault + nat" where
  "msi_entry i =
     (let off = unat (i * BYTE_NUM_PER_MSI_VEC)
      in if off + 4 \<le> MSI_PAGE_BYTES then Inr (off div 4) else Inl OutOfBounds)"

text \<open>
  The state of a run of a handler: \<open>ret\<close>, the entries of the status region, and
  the interrupts raised, oldest first.
\<close>

type_synonym msi_run = "irqreturn \<times> (nat \<Rightarrow> u32) \<times> u32 list"

text \<open>
  The \<open>while\<close> loop over the set bits of one status entry. \<open>domain\<close> gives what
  is raised for a hardware number: for \<open>cdns_handle_msi_irq\<close> the interrupt number
  \<open>irq_find_mapping(pcie->irq_domain_parent, hwirq)\<close>, passed to
  \<open>generic_handle_irq\<close>.
\<close>

function msi_bits_loop :: "(u32 \<Rightarrow> u32) \<Rightarrow> u32 \<Rightarrow> u64 \<Rightarrow> nat \<Rightarrow> u32 list \<Rightarrow> u32 list" where
  "msi_bits_loop domain i val pos raised =
     (if pos < MAX_MSI_IRQS_PER_CTRL \<and>
         find_next_bit val MAX_MSI_IRQS_PER_CTRL pos \<noteq> MAX_MSI_IRQS_PER_CTRL
      then
        (let pos' = find_next_bit val MAX_MSI_IRQS_PER_CTRL pos;
             irq = domain (i * of_nat MAX_MSI_IRQS_PER_CTRL + of_nat pos')
         in msi_bits_loop domain i val (pos' + 1) (raised @ [irq]))
      else raised)"
  by pat_completeness auto
termination
  by (relation "measure (\<lambda>(domain, i, val, pos, raised). MAX_MSI_IRQS_PER_CTRL - pos)")
     (auto simp: MAX_MSI_IRQS_PER_CTRL_def)

declare msi_bits_loop.simps [simp del]

text \<open>One pass of the first \<open>for\<close> loop, for slot \<open>i\<close>.\<close>

definition msi_first_body :: "(u32 \<Rightarrow> u32) \<Rightarrow> u32 \<Rightarrow> msi_run \<Rightarrow> fault + msi_run" where
  "msi_first_body domain i run =
     (case run of (ret, page, raised) \<Rightarrow>
        (case msi_entry i of
           Inl e \<Rightarrow> Inl e
         | Inr k \<Rightarrow>
             let status = page k in
             if status = 0 then Inr (ret, page, raised)
             else Inr (IRQ_HANDLED, page(k := 0),
                       msi_bits_loop domain i (ucast status) 0 raised)))"

text \<open>
  \<open>for (i = 0; i <= num_vectors; i++)\<close> with \<open>u32 i\<close>. A loop that does not
  return is \<open>None\<close>.
\<close>

partial_function (option) msi_first_pass ::
  "(u32 \<Rightarrow> u32) \<Rightarrow> u32 \<Rightarrow> u32 \<Rightarrow> msi_run \<Rightarrow> (fault + msi_run) option" where
  "msi_first_pass domain num_vectors' i run =
     (if i \<le> num_vectors' then
        (case msi_first_body domain i run of
           Inl e \<Rightarrow> Some (Inl e)
         | Inr run' \<Rightarrow> msi_first_pass domain num_vectors' (i + 1) run')
      else Some (Inr run))"

declare msi_first_pass.simps [code]

text \<open>
  One pass of the second, fallback loop of \<open>cdns_handle_msi_irq\<close>: the slots
  without a mapping are skipped. It does not touch the status region.
\<close>

definition msi_second_body :: "(u32 \<Rightarrow> u32) \<Rightarrow> u32 \<Rightarrow> msi_run \<Rightarrow> msi_run" where
  "msi_second_body domain i run =
     fold (\<lambda>pos (ret, page, raised).
             let irq = domain (i * of_nat MAX_MSI_IRQS_PER_CTRL + of_nat pos) in
             if irq = 0 then (ret, page, raised) else (ret, page, raised @ [irq]))
          [0..<MAX_MSI_IRQS_PER_CTRL] run"

partial_function (option) msi_second_pass ::
  "(u32 \<Rightarrow> u32) \<Rightarrow> u32 \<Rightarrow> u32 \<Rightarrow> msi_run \<Rightarrow> msi_run option" where
  "msi_second_pass domain num_vectors' i run =
     (if i \<le> num_vectors' then msi_second_pass domain num_vectors' (i + 1) (msi_second_body domain i run)
      else Some run)"

declare msi_second_pass.simps [code]

text \<open>\<open>cdns_handle_msi_irq\<close> of pcie-cadence-sophgo.c, with the fallback pass.\<close>

definition cdns_handle_msi_irq :: "sg2042_pcie \<Rightarrow> (fault + msi_run) option" where
  "cdns_handle_msi_irq pcie =
     (case msi_first_pass (irq_domain_parent pcie) (num_applied_vecs pcie) 0
             (IRQ_NONE, msi_page pcie, []) of
        None \<Rightarrow> None
      | Some (Inl e) \<Rightarrow> Some (Inl e)
      | Some (Inr (ret, page, raised)) \<Rightarrow>
          if ret = IRQ_NONE
          then (case msi_second_pass (irq_domain_parent pcie) (num_applied_vecs pcie) 0
                       (IRQ_HANDLED, page, raised) of
                  None \<Rightarrow> None
                | Some run \<Rightarrow> Some (Inr run))
          else Some (Inr (ret, page, raised)))"

text \<open>
  \<open>sg2042_pcie_handle_msi_irq\<close> of irq-sg2042-msi.c: the same first loop, which
  hands the hardware number \<open>i * MAX_MSI_IRQS_PER_CTRL + pos\<close> to
  \<open>generic_handle_domain_irq(pcie->msi_domain->parent, ...)\<close>, so the list holds
  hardware numbers; the function returns after that loop.
\<close>

definition sg2042_pcie_handle_msi_irq :: "sg2042_pcie \<Rightarrow> (fault + msi_run) option" where
  "sg2042_pcie_handle_msi_irq pcie =
     msi_first_pass (\<lambda>hwirq. hwirq) (num_applied_vecs pcie) 0 (IRQ_NONE, msi_page pcie, [])"


section \<open>Properties of the PLL control word\<close>

lemma pllctrl_masks:
  "PLLCTRL_FBDIV_MASK = mask 12" "PLLCTRL_POSTDIV2_MASK = mask 3"
  "PLLCTRL_POSTDIV1_MASK = mask 3" "PLLCTRL_REFDIV_MASK = mask 6"
  by (simp_all add: PLLCTRL_FBDIV_MASK_def PLLCTRL_POSTDIV2_MASK_def PLLCTRL_POSTDIV1_MASK_def
        PLLCTRL_REFDIV_MASK_def GENMASK_def PLLCTRL_FBDIV_SHIFT_def PLLCTRL_POSTDIV2_SHIFT_def
        PLLCTRL_POSTDIV1_SHIFT_def PLLCTRL_REFDIV_SHIFT_def mask_eq_exp_minus_1)

lemmas pllctrl_shifts =
  PLLCTRL_FBDIV_SHIFT_def PLLCTRL_POSTDIV2_SHIFT_def PLLCTRL_POSTDIV1_SHIFT_def
  PLLCTRL_REFDIV_SHIFT_def

lemma u32_less_pow_mask: "(x::u32) < 2 ^ n \<Longrightarrow> n < 32 \<Longrightarrow> x AND mask n = x"
  by (simp add: less_mask_eq)

lemma u32_less_pow_bit: "(x::u32) < 2 ^ n \<Longrightarrow> n < 32 \<Longrightarrow> bit x k \<Longrightarrow> k < n"
  by (metis bit_take_bit_iff less_mask_eq take_bit_eq_mask)

lemma unpack_fields:
  fixes f p1 p2 r :: u32
  assumes bf: "\<And>k. bit f k \<Longrightarrow> k < 12" and b1: "\<And>k. bit p1 k \<Longrightarrow> k < 3"
    and b2: "\<And>k. bit p2 k \<Longrightarrow> k < 3" and br: "\<And>k. bit r k \<Longrightarrow> k < 6"
  defines "w \<equiv> push_bit 16 f OR push_bit 12 p2 OR push_bit 8 p1 OR push_bit 0 r"
  shows "drop_bit 16 w AND mask 12 = f" "drop_bit 12 w AND mask 3 = p2"
    "drop_bit 8 w AND mask 3 = p1" "drop_bit 0 w AND mask 6 = r"
  unfolding w_def
  by (rule bit_word_eqI, auto simp add: bit_simps dest: bf b1 b2 br)+

lemma pll_ctrl_decode_encode:
  assumes "fbdiv p < 2 ^ 12" and "postdiv1 p < 2 ^ 3" and "postdiv2 p < 2 ^ 3"
    and "refdiv p < 2 ^ 6"
  shows "sg2042_pll_ctrl_decode (sg2042_pll_ctrl_encode p) c =
           c\<lparr>fbdiv := fbdiv p, refdiv := refdiv p, postdiv1 := postdiv1 p,
              postdiv2 := postdiv2 p\<rparr>"
    and "sg2042_pll_ctrl_encode p =
           push_bit 16 (fbdiv p) OR push_bit 12 (postdiv2 p) OR push_bit 8 (postdiv1 p) OR
           refdiv p"
proof -
  have f: "fbdiv p AND mask 12 = fbdiv p"
    using assms(1) by (simp add: u32_less_pow_mask)
  have p1: "postdiv1 p AND mask 3 = postdiv1 p"
    using assms(2) by (simp add: u32_less_pow_mask)
  have p2: "postdiv2 p AND mask 3 = postdiv2 p"
    using assms(3) by (simp add: u32_less_pow_mask)
  have r: "refdiv p AND mask 6 = refdiv p"
    using assms(4) by (simp add: u32_less_pow_mask)
  have bf: "\<And>k. bit (fbdiv p) k \<Longrightarrow> k < 12"
    using assms(1) u32_less_pow_bit [of "fbdiv p" 12] by simp
  have b1: "\<And>k. bit (postdiv1 p) k \<Longrightarrow> k < 3"
    using assms(2) u32_less_pow_bit [of "postdiv1 p" 3] by simp
  have b2: "\<And>k. bit (postdiv2 p) k \<Longrightarrow> k < 3"
    using assms(3) u32_less_pow_bit [of "postdiv2 p" 3] by simp
  have br: "\<And>k. bit (refdiv p) k \<Longrightarrow> k < 6"
    using assms(4) u32_less_pow_bit [of "refdiv p" 6] by simp
  note pk = unpack_fields [OF bf b1 b2 br]
  show "sg2042_pll_ctrl_decode (sg2042_pll_ctrl_encode p) c =
           c\<lparr>fbdiv := fbdiv p, refdiv := refdiv p, postdiv1 := postdiv1 p,
              postdiv2 := postdiv2 p\<rparr>"
    unfolding sg2042_pll_ctrl_decode_def sg2042_pll_ctrl_encode_def pllctrl_masks f p1 p2 r
      pllctrl_shifts
    by (simp only: pk)
  show "sg2042_pll_ctrl_encode p =
           push_bit 16 (fbdiv p) OR push_bit 12 (postdiv2 p) OR push_bit 8 (postdiv1 p) OR
           refdiv p"
    by (simp add: sg2042_pll_ctrl_encode_def pllctrl_masks f p1 p2 r pllctrl_shifts)
qed

text \<open>
  C3. For a control structure \<open>p\<close> whose dividers fit their register fields
  (\<open>fbdiv\<close> in 12 bits, \<open>postdiv1\<close> and \<open>postdiv2\<close> in 3 bits each, \<open>refdiv\<close> in
  6 bits), decoding the encoded control word into any structure \<open>c\<close> sets the four
  dividers of \<open>c\<close> to those of \<open>p\<close> (\<open>sg2042_pll_ctrl_decode\<close> does not touch
  \<open>freq\<close>, which the word does not hold); in particular decoding into \<open>p\<close> itself
  gives \<open>p\<close> back. The word holds \<open>fbdiv\<close> at bits 27:16, \<open>postdiv2\<close> at 14:12,
  \<open>postdiv1\<close> at 10:8 and \<open>refdiv\<close> at 5:0.
\<close>

theorem pll_ctrl_roundtrip:
  assumes "fbdiv p < 2 ^ 12" and "postdiv1 p < 2 ^ 3" and "postdiv2 p < 2 ^ 3"
    and "refdiv p < 2 ^ 6"
  shows "sg2042_pll_ctrl_decode (sg2042_pll_ctrl_encode p) c =
           c\<lparr>fbdiv := fbdiv p, refdiv := refdiv p, postdiv1 := postdiv1 p,
              postdiv2 := postdiv2 p\<rparr> \<and>
         sg2042_pll_ctrl_decode (sg2042_pll_ctrl_encode p) p = p \<and>
         sg2042_pll_ctrl_encode p =
           push_bit 16 (fbdiv p) OR push_bit 12 (postdiv2 p) OR push_bit 8 (postdiv1 p) OR
           refdiv p"
  using pll_ctrl_decode_encode [OF assms] by simp

theorem pll_ctrl_roundtrip_witness:
  "sg2042_pll_ctrl_decode
     (sg2042_pll_ctrl_encode
        \<lparr>freq = 2000000000, fbdiv = 80, postdiv1 = 2, postdiv2 = 1, refdiv = 3\<rparr>)
     \<lparr>freq = 7, fbdiv = 0, postdiv1 = 0, postdiv2 = 0, refdiv = 0\<rparr> =
   \<lparr>freq = 7, fbdiv = 80, postdiv1 = 2, postdiv2 = 1, refdiv = 3\<rparr>"
proof -
  let ?p = "\<lparr>freq = 2000000000, fbdiv = 80, postdiv1 = 2, postdiv2 = 1, refdiv = 3\<rparr>"
  let ?c = "\<lparr>freq = 7, fbdiv = 0, postdiv1 = 0, postdiv2 = 0, refdiv = 0\<rparr>"
  have "fbdiv ?p < 2 ^ 12" and "postdiv1 ?p < 2 ^ 3" and "postdiv2 ?p < 2 ^ 3"
    and "refdiv ?p < 2 ^ 6"
    by simp_all
  then have "sg2042_pll_ctrl_decode (sg2042_pll_ctrl_encode ?p) ?c =
           ?c\<lparr>fbdiv := fbdiv ?p, refdiv := refdiv ?p, postdiv1 := postdiv1 ?p,
              postdiv2 := postdiv2 ?p\<rparr> \<and>
         sg2042_pll_ctrl_decode (sg2042_pll_ctrl_encode ?p) ?p = ?p \<and>
         sg2042_pll_ctrl_encode ?p =
           push_bit 16 (fbdiv ?p) OR push_bit 12 (postdiv2 ?p) OR push_bit 8 (postdiv1 ?p) OR
           refdiv ?p"
    by (rule pll_ctrl_roundtrip)
  then have "sg2042_pll_ctrl_decode (sg2042_pll_ctrl_encode ?p) ?c =
           ?c\<lparr>fbdiv := fbdiv ?p, refdiv := refdiv ?p, postdiv1 := postdiv1 ?p,
              postdiv2 := postdiv2 ?p\<rparr>"
    by (rule conjunct1)
  then show ?thesis
    by simp
qed


section \<open>Properties of the divider derivation\<close>

lemmas pll_consts =
  KHZ_def MHZ_def REFDIV_MIN_def REFDIV_MAX_def FBDIV_MIN_def FBDIV_MAX_def PLL_FREF_SG2042_def
  PLL_FOUTPOSTDIV_MIN_def PLL_FOUTPOSTDIV_MAX_def PLL_FOUTVCO_MIN_def PLL_FOUTVCO_MAX_def

lemma postdiv_table_all:
  "list_all (\<lambda>(d0, d1, res).
      postdiv_of_tmp0 (word_of_int res) = Some (word_of_int d1, word_of_int d0)) postdiv1_2"
  by (simp add: postdiv1_2_def postdiv_of_tmp0_def)

lemma postdiv_table_exact:
  "(d0, d1, res) \<in> set postdiv1_2 \<Longrightarrow>
     postdiv_of_tmp0 (word_of_int res) = Some (word_of_int d1, word_of_int d0)"
  using postdiv_table_all by (auto simp: list_all_iff)

lemma postdiv_search_none:
  "\<forall>(d0, d1, res) \<in> set tbl. word_of_int res < t \<Longrightarrow> postdiv_search t tbl = None"
  by (induction tbl) auto

lemma postdiv_above_table: "49 < t \<Longrightarrow> postdiv_of_tmp0 t = None"
proof -
  assume "49 < t"
  then have t: "49 < unat t"
    by (simp add: word_less_nat_alt)
  then have "\<not> t \<le> 7"
    by (simp add: word_le_nat_alt)
  moreover have "\<forall>(d0, d1, res) \<in> set postdiv1_2. word_of_int res < t"
    using t by (simp add: postdiv1_2_def word_less_nat_alt)
  ultimately show ?thesis
    by (simp add: postdiv_of_tmp0_def postdiv_search_none)
qed

text \<open>
  C7. Let \<open>t\<close> be the product \<open>((prate / REFDIV) * FBDIV) / rate\<close> that
  \<open>sg2042_pll_get_postdiv_1_2\<close> computes. If \<open>t\<close> is in 1..7 the function gives
  \<open>(postdiv1, postdiv2) = (t, 1)\<close>. If \<open>t\<close> is in 8..49 and is the product of a row
  \<open>{d0, d1, t}\<close> of the table, it gives that row's pair swapped:
  \<open>postdiv1 = d1\<close> and \<open>postdiv2 = d0\<close>. If \<open>t\<close> is above 49 it reports no
  solution (\<open>-EINVAL\<close>, here \<open>None\<close>).
\<close>

theorem postdiv_derivation:
  assumes "postdiv_tmp0 rate prate f r = Inr t"
  shows "(1 \<le> t \<and> t \<le> 7 \<longrightarrow>
            sg2042_pll_get_postdiv_1_2 rate prate f r = Inr (Some (ucast t, 1))) \<and>
         (8 \<le> t \<and> t \<le> 49 \<longrightarrow>
            (\<forall>d0 d1. (d0, d1, uint t) \<in> set postdiv1_2 \<longrightarrow>
               sg2042_pll_get_postdiv_1_2 rate prate f r =
                 Inr (Some (word_of_int d1, word_of_int d0)))) \<and>
         (49 < t \<longrightarrow> sg2042_pll_get_postdiv_1_2 rate prate f r = Inr None)"
proof (intro conjI impI allI)
  assume "1 \<le> t \<and> t \<le> 7"
  then show "sg2042_pll_get_postdiv_1_2 rate prate f r = Inr (Some (ucast t, 1))"
    using assms by (simp add: sg2042_pll_get_postdiv_1_2_def postdiv_of_tmp0_def)
next
  fix d0 d1
  assume "(d0, d1, uint t) \<in> set postdiv1_2"
  then have "postdiv_of_tmp0 (word_of_int (uint t)) = Some (word_of_int d1, word_of_int d0)"
    by (rule postdiv_table_exact)
  then show "sg2042_pll_get_postdiv_1_2 rate prate f r =
                 Inr (Some (word_of_int d1, word_of_int d0))"
    using assms by (simp add: sg2042_pll_get_postdiv_1_2_def)
next
  assume "49 < t"
  then show "sg2042_pll_get_postdiv_1_2 rate prate f r = Inr None"
    using assms by (simp add: sg2042_pll_get_postdiv_1_2_def postdiv_above_table)
qed

lemma postdiv_tmp0_5: "postdiv_tmp0 500000000 25000000 100 1 = Inr 5"
  by (simp add: postdiv_tmp0_def do_div_def)

lemma postdiv_tmp0_15: "postdiv_tmp0 100000000 25000000 60 1 = Inr 15"
  by (simp add: postdiv_tmp0_def do_div_def)

lemma postdiv_tmp0_50: "postdiv_tmp0 16000000 25000000 32 1 = Inr 50"
  by (simp add: postdiv_tmp0_def do_div_def)

theorem postdiv_derivation_witness:
  "sg2042_pll_get_postdiv_1_2 500000000 25000000 100 1 = Inr (Some (5, 1)) \<and>
   sg2042_pll_get_postdiv_1_2 100000000 25000000 60 1 = Inr (Some (5, 3)) \<and>
   sg2042_pll_get_postdiv_1_2 16000000 25000000 32 1 = Inr None"
  using postdiv_derivation [OF postdiv_tmp0_5] postdiv_derivation [OF postdiv_tmp0_15]
    postdiv_derivation [OF postdiv_tmp0_50]
  by (simp add: postdiv1_2_def)

text \<open>
  C4. The claim is that no division of the solver has a zero divisor. The code
  divides by zero: for a parent rate of 25 MHz and a requested rate of 1000 MHz,
  the pass \<open>refdiv = 1\<close>, \<open>fbdiv = 32\<close> has \<open>FOUTVCO\<close> = 800 MHz, within the VCO
  range; \<open>tmp0\<close> is \<open>800000000 / 1000000000 = 0\<close>, which is \<open>\<le> 7\<close>, so the
  derivation returns \<open>postdiv1 = 0\<close>, \<open>postdiv2 = 1\<close> with success, and
  \<open>do_div(tmp, postdiv1 * postdiv2)\<close> divides by zero.
\<close>

theorem solver_divides_by_zero:
  "sg2042_pll_get_postdiv_1_2 1000000000 25000000 32 1 = Inr (Some (0, 1)) \<and>
   fbdiv_body 1000000000 25000000 1 32 zero_ctrl = Inl DivideByZero \<and>
   sg2042_get_pll_ctl_setting zero_ctrl 1000000000 25000000 = Inl DivideByZero"
  by code_simp

section \<open>Properties of the solver's arithmetic\<close>

lemma unat_u32_less: "unat (x::u32) < 4294967296"
  using unsigned_less [of x, where ?'a = nat] by simp

lemma unat_u64_less: "unat (x::u64) < 18446744073709551616"
  using unsigned_less [of x, where ?'a = nat] by simp

lemma unat_ucast_u32_u64: "unat (ucast (x::u32) :: u64) = unat x"
proof -
  have "unat x < 2 ^ 64"
    using unat_u32_less [of x] by simp
  then show ?thesis
    by (simp add: unsigned_ucast_eq take_bit_nat_eq_self_iff)
qed

lemma ucast_u32_u64_eq_0: "(ucast (x::u32) :: u64) = 0 \<longleftrightarrow> x = 0"
  by (metis unat_eq_zero unat_ucast_u32_u64)

lemma do_div_floor:
  "b \<noteq> 0 \<Longrightarrow> \<exists>q. do_div n b = Inr q \<and> unat q = unat n div unat b"
  by (simp add: do_div_def unat_div unat_ucast_u32_u64)

lemma do_div_Inr: "do_div n b = Inr q \<longleftrightarrow> b \<noteq> 0 \<and> q = n div ucast b"
  by (auto simp: do_div_def)

lemma unat_mult_u64_u32:
  assumes "unat (a::u64) < 2 ^ 32"
  shows "unat (a * ucast (b::u32)) = unat a * unat b"
proof -
  have "unat a * unat b < 2 ^ 32 * 2 ^ 32"
    using assms unat_u32_less [of b] by (intro mult_strict_mono) simp_all
  then have "unat a * unat (ucast b :: u64) < 2 ^ LENGTH(64)"
    by (simp add: unat_ucast_u32_u64)
  then show ?thesis
    by (simp add: unat_mult_lem [THEN iffD1] unat_ucast_u32_u64)
qed

text \<open>
  The newer driver, \<open>sg2042_get_pll_ctl_setting\<close>: its divisions are \<open>do_div\<close> on a
  \<open>u64\<close>, and \<open>FOUTVCO\<close> is computed as \<open>parent_rate * fbdiv\<close> in a \<open>u64\<close>, divided
  by \<open>refdiv\<close>. For a parent rate that fits 32 bits and \<open>fbdiv\<close> between
  \<open>FBDIV_MIN\<close> and \<open>FBDIV_MAX\<close> the product does not wrap, and the computed value
  is the exact quotient \<open>parent_rate * fbdiv div refdiv\<close>.
\<close>

lemma foutvco_exact:
  assumes "unat parent_rate < 2 ^ 32" and "FBDIV_MIN \<le> f" and "f \<le> FBDIV_MAX" and "r \<noteq> 0"
  shows "unat (parent_rate * ucast f) = unat parent_rate * unat f \<and>
         (\<exists>v. sg2042_foutvco parent_rate f r = Inr v \<and>
              unat v = unat parent_rate * unat f div unat r)"
  using assms(1,4)
  by (simp add: sg2042_foutvco_def do_div_def unat_div unat_ucast_u32_u64 unat_mult_u64_u32)

lemma foutvco_exact_320_3:
  "\<exists>v. sg2042_foutvco 25000000 320 3 = Inr v \<and> unat v = 25000000 * 320 div 3"
  using foutvco_exact [of 25000000 320 3] by (simp add: FBDIV_MIN_def FBDIV_MAX_def)

text \<open>
  C6. The claim is that the VCO computation takes the product
  \<open>parent_rate * fbdiv\<close> in 64 bits, so that it does not overflow for a parent rate
  of 32 bits and \<open>fbdiv\<close> in its range, and the computed value is exact. The newer
  driver does so (lemma \<open>foutvco_exact\<close>). The older \<open>__get_pll_ctl_setting\<close> of
  clk.c, which the claim cites too, does not: \<open>fref * fbdiv\<close> is an \<open>unsigned int\<close>
  product. For the parent rate 25 MHz, \<open>fbdiv = 172\<close> and \<open>refdiv = 2\<close> the exact
  value is 2150 MHz, which the newer driver computes; the older one computes
  \<open>(25000000 * 172 mod 2 ^ 32) / 2 = 2516352\<close>, below \<open>PLL_FREQ_MIN\<close>, and skips the
  pass.
\<close>

theorem mango_foutvco_wraps:
  "mango_foutvco 25000000 172 2 = Inr 2516352 \<and>
   sg2042_foutvco 25000000 172 2 = Inr 2150000000 \<and>
   (25000000 * 172 div 2 :: nat) = 2150000000 \<and>
   mango_FBDIV_MIN \<le> 172 \<and> 172 \<le> mango_FBDIV_MAX \<and>
   mango_fbdiv_body 2150000000 25000000 2 172 zero_ctrl = Inr (False, zero_ctrl)"
  by (simp add: mango_foutvco_def sg2042_foutvco_def do_div_def mango_fbdiv_body_def
      mango_FBDIV_MIN_def mango_FBDIV_MAX_def PLL_FREQ_MIN_def MHZ_def KHZ_def)

section \<open>Properties of the MSI vector allocation\<close>

lemma region_free_iff:
  "region_free bm pos len \<longleftrightarrow> (\<forall>k. pos \<le> k \<and> k < pos + len \<longrightarrow> \<not> bit bm k)"
  by (auto simp: region_free_def list_all_iff)

lemma bit_fold_set_bit:
  "bit (fold (\<lambda>i w. set_bit i w) xs (bm :: 512 word)) k \<longleftrightarrow> bit bm k \<or> (k \<in> set xs \<and> k < 512)"
  by (induction xs arbitrary: bm) (auto simp: bit_set_bit_iff)

lemma bit_fold_unset_bit:
  "bit (fold (\<lambda>i w. unset_bit i w) xs (bm :: 512 word)) k \<longleftrightarrow> bit bm k \<and> k \<notin> set xs"
  by (induction xs arbitrary: bm) (auto simp: bit_unset_bit_iff)

lemma bit_bitmap_set:
  "bit (bitmap_set bm pos len) k \<longleftrightarrow> bit bm k \<or> (pos \<le> k \<and> k < pos + len \<and> k < 512)"
  by (auto simp: bitmap_set_def bit_fold_set_bit)

lemma bit_bitmap_clear:
  "bit (bitmap_clear bm pos len) k \<longleftrightarrow> bit bm k \<and> \<not> (pos \<le> k \<and> k < pos + len)"
  by (auto simp: bitmap_clear_def bit_fold_unset_bit)

lemma bitmap_clear_set:
  assumes "region_free bm pos len"
  shows "bitmap_clear (bitmap_set bm pos len) pos len = bm"
  using assms
  by (intro bit_word_eqI) (auto simp: bit_bitmap_clear bit_bitmap_set region_free_iff)


lemma find_free_region_from_found:
  assumes "find_free_region_from bm bits order pos = (b, bm')" and "0 \<le> b"
  shows "\<exists>p. b = int p \<and> pos \<le> p \<and> p + 2 ^ order \<le> bits \<and> region_free bm p (2 ^ order) \<and>
             bm' = bitmap_set bm p (2 ^ order)"
  using assms
proof (induction bm bits order pos rule: find_free_region_from.induct)
  case (1 bm bits order pos)
  show ?case
  proof (cases "pos + 2 ^ order \<le> bits")
    case False
    then show ?thesis
      using "1.prems" by (simp add: find_free_region_from.simps [of bm bits order pos] ENOMEM_def)
  next
    case fits: True
    show ?thesis
    proof (cases "region_free bm pos (2 ^ order)")
      case True
      then show ?thesis
        using "1.prems" fits by (auto simp: find_free_region_from.simps [of bm bits order pos])
    next
      case False
      then have "find_free_region_from bm bits order (pos + 2 ^ order) = (b, bm')"
        using "1.prems" fits by (simp add: find_free_region_from.simps [of bm bits order pos])
      from "1.IH" [OF fits False this \<open>0 \<le> b\<close>] show ?thesis
        by auto
    qed
  qed
qed

lemma find_free_region_from_none:
  assumes "\<forall>k. pos \<le> k * 2 ^ order \<and> (k + 1) * 2 ^ order \<le> bits \<longrightarrow>
             \<not> region_free bm (k * 2 ^ order) (2 ^ order)"
    and "pos = j * 2 ^ order"
  shows "find_free_region_from bm bits order pos = (- ENOMEM, bm)"
  using assms
proof (induction bm bits order pos arbitrary: j rule: find_free_region_from.induct)
  case (1 bm bits order pos)
  show ?case
  proof (cases "pos + 2 ^ order \<le> bits")
    case False
    then show ?thesis by (simp add: find_free_region_from.simps [of bm bits order pos])
  next
    case fits: True
    have "pos \<le> j * 2 ^ order \<and> (j + 1) * 2 ^ order \<le> bits"
      using "1.prems"(2) fits by (simp add: algebra_simps)
    then have "\<not> region_free bm (j * 2 ^ order) (2 ^ order)"
      using "1.prems"(1) by blast
    then have nf: "\<not> region_free bm pos (2 ^ order)"
      using "1.prems"(2) by simp
    have "find_free_region_from bm bits order (pos + 2 ^ order) = (- ENOMEM, bm)"
    proof (rule "1.IH" [OF fits nf, of "j + 1"])
      show "\<forall>k. pos + 2 ^ order \<le> k * 2 ^ order \<and> (k + 1) * 2 ^ order \<le> bits \<longrightarrow>
             \<not> region_free bm (k * 2 ^ order) (2 ^ order)"
        using "1.prems"(1) by auto
      show "pos + 2 ^ order = (j + 1) * 2 ^ order"
        using "1.prems"(2) by (simp add: algebra_simps)
    qed
    then show ?thesis
      using fits nf by (simp add: find_free_region_from.simps [of bm bits order pos])
  qed
qed


text \<open>
  C8. When the in-use bitmap has no free region of \<open>2 ^ order_base_2(nr_irqs)\<close> bits
  aligned to its size among the first \<open>num_vectors\<close> bits,
  \<open>cdns_pcie_irq_domain_alloc\<close> returns \<open>-ENOSPC\<close>, sets no interrupt information and
  leaves the driver state, the bitmap included, as it was: nothing is allocated in
  part. The witness asks for 8 vectors when only the 5 slots 3..7 are free.
\<close>

theorem alloc_enospc:
  assumes "\<forall>k. (k + 1) * 2 ^ order_base_2 n \<le> unat (num_vectors pcie) \<longrightarrow>
             \<not> region_free (msi_irq_in_use pcie) (k * 2 ^ order_base_2 n) (2 ^ order_base_2 n)"
  shows "cdns_pcie_irq_domain_alloc pcie virq n = (- ENOSPC, [], pcie)"
proof -
  have "find_free_region_from (msi_irq_in_use pcie) (unat (num_vectors pcie)) (order_base_2 n) 0 =
          (- ENOMEM, msi_irq_in_use pcie)"
    by (rule find_free_region_from_none [where j = 0]) (use assms in auto)
  then show ?thesis
    by (simp add: cdns_pcie_irq_domain_alloc_def bitmap_find_free_region_def ENOMEM_def
        Let_def)
qed

text \<open>
  C9. When \<open>cdns_pcie_irq_domain_alloc\<close> succeeds for \<open>nr_irqs\<close> vectors and gives
  the first of them, \<open>virq\<close>, the hardware number \<open>b\<close>, then
  \<open>cdns_pcie_irq_domain_free\<close> for that hardware number and the same \<open>nr_irqs\<close>,
  called next, restores the bitmap, and with it the whole driver state, to what
  it was before the allocation.
\<close>

theorem alloc_free_roundtrip:
  assumes "cdns_pcie_irq_domain_alloc pcie virq n = (0, (virq, b) # rest, pcie')"
  shows "cdns_pcie_irq_domain_free pcie' (nat b) n = pcie"
proof -
  obtain bit' bm where f: "find_free_region_from (msi_irq_in_use pcie) (unat (num_vectors pcie))
      (order_base_2 n) 0 = (bit', bm)"
    by (cases "find_free_region_from (msi_irq_in_use pcie) (unat (num_vectors pcie))
      (order_base_2 n) 0")
  have nn: "\<not> bit' < 0" and p': "pcie' = pcie\<lparr>msi_irq_in_use := bm\<rparr>"
    and l: "map (\<lambda>i. (virq + of_nat i, bit' + int i)) [0..<unat n] = (virq, b) # rest"
    using assms f
    by (auto simp: cdns_pcie_irq_domain_alloc_def bitmap_find_free_region_def ENOSPC_def
        Let_def split: if_splits)
  have "0 < unat n"
    using l by (cases "unat n") auto
  then have "hd (map (\<lambda>i. (virq + of_nat i, bit' + int i)) [0..<unat n]) = (virq, bit')"
    by (simp add: hd_map upt_conv_Cons)
  then have b: "b = bit'"
    using l by simp
  from find_free_region_from_found [OF f] nn obtain p where
    p: "bit' = int p" "region_free (msi_irq_in_use pcie) p (2 ^ order_base_2 n)"
      "bm = bitmap_set (msi_irq_in_use pcie) p (2 ^ order_base_2 n)"
    by auto
  show ?thesis
    using p b p'
    by (simp add: cdns_pcie_irq_domain_free_def bitmap_release_region_def bitmap_clear_set)
qed


lemma order_base_2_8: "order_base_2 8 = 3"
  by code_simp

lemma order_base_2_3: "order_base_2 3 = 2"
  by code_simp

theorem alloc_enospc_witness:
  "cdns_pcie_irq_domain_alloc
     \<lparr>num_vectors = 512, num_applied_vecs = 0, msi_irq_in_use = NOT (push_bit 3 (mask 5)),
      msi_page = (\<lambda>i. 0), irq_domain_parent = (\<lambda>h. 0)\<rparr> 40 8 =
   (- ENOSPC, [],
     \<lparr>num_vectors = 512, num_applied_vecs = 0, msi_irq_in_use = NOT (push_bit 3 (mask 5)),
      msi_page = (\<lambda>i. 0), irq_domain_parent = (\<lambda>h. 0)\<rparr>)"
proof (rule alloc_enospc, intro allI impI)
  fix k :: nat
  let ?pcie = "\<lparr>num_vectors = 512, num_applied_vecs = 0,
      msi_irq_in_use = NOT (push_bit 3 (mask 5)) :: 512 word,
      msi_page = (\<lambda>i. 0), irq_domain_parent = (\<lambda>h. 0)\<rparr>"
  assume "(k + 1) * 2 ^ order_base_2 8 \<le> unat (num_vectors ?pcie)"
  then have k: "k * 8 < 512"
    by (simp add: order_base_2_8)
  have "\<not> (3 \<le> k * 8 \<and> k * 8 - 3 < 5)"
    by arith
  then have "bit (NOT (push_bit 3 (mask 5)) :: 512 word) (k * 8)"
    using k by (auto simp: bit_simps)
  then show "\<not> region_free (msi_irq_in_use ?pcie) (k * 2 ^ order_base_2 8) (2 ^ order_base_2 8)"
    by (auto simp: region_free_iff order_base_2_8 intro!: exI [of _ "k * 8"])
qed

lemma bitmap_set_0_4: "bitmap_set 0 0 4 = 15"
  by code_simp

lemma region_free_0_4: "region_free 0 0 4"
  by code_simp

lemma alloc_empty_3:
  "cdns_pcie_irq_domain_alloc
     \<lparr>num_vectors = 512, num_applied_vecs = 0, msi_irq_in_use = 0,
      msi_page = (\<lambda>i. 0), irq_domain_parent = (\<lambda>h. 0)\<rparr> 40 3 =
   (0, (40, 0) # [(41, 1), (42, 2)],
     \<lparr>num_vectors = 512, num_applied_vecs = 0, msi_irq_in_use = 15,
      msi_page = (\<lambda>i. 0), irq_domain_parent = (\<lambda>h. 0)\<rparr>)"
  by (simp add: cdns_pcie_irq_domain_alloc_def bitmap_find_free_region_def order_base_2_3
      find_free_region_from.simps [of _ _ _ 0] region_free_0_4 bitmap_set_0_4 upt_conv_Cons ENOSPC_def)

theorem alloc_free_roundtrip_witness:
  "cdns_pcie_irq_domain_free
     \<lparr>num_vectors = 512, num_applied_vecs = 0, msi_irq_in_use = 15,
      msi_page = (\<lambda>i. 0), irq_domain_parent = (\<lambda>h. 0)\<rparr> 0 3 =
   \<lparr>num_vectors = 512, num_applied_vecs = 0, msi_irq_in_use = 0,
      msi_page = (\<lambda>i. 0), irq_domain_parent = (\<lambda>h. 0)\<rparr>"
  using alloc_free_roundtrip [OF alloc_empty_3] by simp



section \<open>Properties of the MSI dispatch\<close>

lemma find_next_bit_per_ctrl:
  "find_next_bit val MAX_MSI_IRQS_PER_CTRL 0 = (if bit val 0 then 0 else MAX_MSI_IRQS_PER_CTRL)"
  by (simp add: find_next_bit.simps [of val _ 0] find_next_bit.simps [of val _ "Suc 0"]
      MAX_MSI_IRQS_PER_CTRL_def)

lemma msi_bits_loop_eq:
  "msi_bits_loop domain i val 0 raised = (if bit val 0 then raised @ [domain i] else raised)"
  by (simp add: msi_bits_loop.simps [of domain i val 0] msi_bits_loop.simps [of domain i val "Suc 0"]
      find_next_bit_per_ctrl)
    (simp add: MAX_MSI_IRQS_PER_CTRL_def)

lemma bit_ucast_u32_u64_0: "bit (ucast (w::u32) :: u64) 0 = bit w 0"
  by (simp add: bit_ucast_iff)

lemma msi_entry_in_page:
  assumes "unat i < 512"
  shows "msi_entry i = Inr (unat i)"
proof -
  have "unat (i * 4) = unat i * 4"
    using assms by (simp add: unat_word_ariths)
  then show ?thesis
    using assms by (simp add: msi_entry_def BYTE_NUM_PER_MSI_VEC_def MSI_PAGE_BYTES_def)
qed

lemma msi_entry_past_page:
  assumes "unat i = 512"
  shows "msi_entry i = Inl OutOfBounds"
proof -
  have "unat (i * 4) = unat i * 4"
    using assms by (simp add: unat_word_ariths)
  then show ?thesis
    using assms by (simp add: msi_entry_def BYTE_NUM_PER_MSI_VEC_def MSI_PAGE_BYTES_def)
qed

lemma msi_first_body_eq:
  assumes "unat i < 512"
  shows "msi_first_body domain i (ret, page, raised) =
     Inr (if page (unat i) = 0 then (ret, page, raised)
          else (IRQ_HANDLED, page(unat i := 0),
                if bit (page (unat i)) 0 then raised @ [domain i] else raised))"
  by (simp add: msi_first_body_def msi_entry_in_page [OF assms] msi_bits_loop_eq
      bit_ucast_u32_u64_0 Let_def)

lemma msi_second_body_eq:
  "msi_second_body domain i (ret, page, raised) =
     (ret, page, if domain i = 0 then raised else raised @ [domain i])"
  by (simp add: msi_second_body_def MAX_MSI_IRQS_PER_CTRL_def Let_def)

lemma unat_Suc_u32:
  assumes "(i::u32) \<le> n" and "n < 0xffffffff"
  shows "unat (i + 1) = unat i + 1"
proof -
  have "unat i < 4294967295"
    using assms by (simp add: word_le_nat_alt word_less_nat_alt)
  then show ?thesis
    by (simp add: unat_word_ariths)
qed

lemma of_nat_unat_u32: "of_nat (unat (i::u32)) = i"
  by simp

lemma msi_first_pass_run:
  assumes "unat n < 512" and "unat i \<le> Suc (unat n)"
  shows "msi_first_pass domain n i (ret, page, raised) =
     Some (Inr (if \<exists>j. unat i \<le> j \<and> j \<le> unat n \<and> page j \<noteq> 0 then IRQ_HANDLED else ret,
                (\<lambda>j. if unat i \<le> j \<and> j \<le> unat n then 0 else page j),
                raised @ map (\<lambda>j. domain (of_nat j))
                           (filter (\<lambda>j. bit (page j) 0) [unat i..<Suc (unat n)])))"
  using assms(2)
proof (induction "Suc (unat n) - unat i" arbitrary: i ret page raised)
  case 0
  then have gt: "unat n < unat i"
    by simp
  have nle: "\<not> i \<le> n"
    using gt by (simp add: word_le_nat_alt)
  have e1: "[unat i..<Suc (unat n)] = []"
    using gt by simp
  have e2: "(\<exists>j. unat i \<le> j \<and> j \<le> unat n \<and> page j \<noteq> 0) = False"
    using gt by auto
  have e3: "(\<lambda>j. if unat i \<le> j \<and> j \<le> unat n then 0 else page j) = page"
    using gt by (auto simp: fun_eq_iff)
  show ?case
    unfolding e1 e2 e3 using nle by (simp add: msi_first_pass.simps [of domain n i])
next
  case (Suc k)
  then have le: "i \<le> n"
    by (simp add: word_le_nat_alt)
  have nlt: "n < 0xffffffff"
    using assms(1) by (simp add: word_less_nat_alt)
  have s: "unat (i + 1) = unat i + 1"
    using le nlt by (rule unat_Suc_u32)
  have ile: "unat i \<le> unat n"
    using le by (simp add: word_le_nat_alt)
  have i512: "unat i < 512"
    using ile assms(1) by simp
  have upt: "[unat i..<Suc (unat n)] = unat i # [Suc (unat i)..<Suc (unat n)]"
    using ile by (simp add: upt_conv_Cons del: upt_Suc)
  have ih: "msi_first_pass domain n (i + 1) (ret', page', raised') =
     Some (Inr (if \<exists>j. Suc (unat i) \<le> j \<and> j \<le> unat n \<and> page' j \<noteq> 0 then IRQ_HANDLED else ret',
                (\<lambda>j. if Suc (unat i) \<le> j \<and> j \<le> unat n then 0 else page' j),
                raised' @ map (\<lambda>j. domain (of_nat j))
                           (filter (\<lambda>j. bit (page' j) 0) [Suc (unat i)..<Suc (unat n)])))"
    for ret' page' raised'
    using Suc.hyps(1) [of "i + 1" ret' page' raised'] Suc.hyps(2) ile unfolding s
    by (simp del: upt_Suc)
  show ?case
  proof (cases "page (unat i) = 0")
    case True
    have ex: "(\<exists>j. unat i \<le> j \<and> j \<le> unat n \<and> page j \<noteq> 0) \<longleftrightarrow>
              (\<exists>j. Suc (unat i) \<le> j \<and> j \<le> unat n \<and> page j \<noteq> 0)"
      using True by (metis Suc_eq_plus1 Suc_leI le_neq_implies_less Suc_leD)
    have pg: "(\<lambda>j. if unat i \<le> j \<and> j \<le> unat n then 0 else page j) =
              (\<lambda>j. if Suc (unat i) \<le> j \<and> j \<le> unat n then 0 else page j)"
      using True by (auto simp: fun_eq_iff) (metis Suc_leI le_neq_implies_less)
    have nb: "\<not> bit (page (unat i)) 0"
      using True by simp
    show ?thesis
      using le True nb
      unfolding upt ex pg
      by (simp add: msi_first_pass.simps [of domain n i] msi_first_body_eq [OF i512] ih
          del: upt_Suc)
  next
    case False
    have ex: "\<exists>j. unat i \<le> j \<and> j \<le> unat n \<and> page j \<noteq> 0"
      using False ile by blast
    have pg: "(\<lambda>j. if unat i \<le> j \<and> j \<le> unat n then 0 else page j) =
              (\<lambda>j. if Suc (unat i) \<le> j \<and> j \<le> unat n then 0 else (page(unat i := 0)) j)"
      using ile by (auto simp: fun_eq_iff)
    have fl: "filter (\<lambda>j. bit ((page(unat i := 0)) j) 0) [Suc (unat i)..<Suc (unat n)] =
              filter (\<lambda>j. bit (page j) 0) [Suc (unat i)..<Suc (unat n)]"
      by (rule filter_cong) auto
    have step: "msi_first_pass domain n (i + 1) (IRQ_HANDLED, page(unat i := 0), r') =
       Some (Inr (IRQ_HANDLED,
                  (\<lambda>j. if Suc (unat i) \<le> j \<and> j \<le> unat n then 0 else (page(unat i := 0)) j),
                  r' @ map (\<lambda>j. domain (of_nat j))
                         (filter (\<lambda>j. bit (page j) 0) [Suc (unat i)..<Suc (unat n)])))" for r'
      unfolding ih fl by simp
    show ?thesis
      unfolding upt pg using le False ex
      by (simp add: msi_first_pass.simps [of domain n i] msi_first_body_eq [OF i512] step
          of_nat_unat_u32 del: upt_Suc)
  qed
qed

lemma msi_first_pass_past_page:
  assumes "512 \<le> unat n" and "unat i \<le> 512"
  shows "msi_first_pass domain n i run = Some (Inl OutOfBounds)"
  using assms(2)
proof (induction "512 - unat i" arbitrary: i run)
  case 0
  then have i: "unat i = 512" by simp
  then have le: "i \<le> n"
    using assms(1) by (simp add: word_le_nat_alt)
  show ?case
    using le by (simp add: msi_first_pass.simps [of domain n i] msi_first_body_def
        msi_entry_past_page [OF i] split: prod.splits)
next
  case (Suc k)
  then have i: "unat i < 512" by simp
  then have le: "i \<le> n"
    using assms(1) by (simp add: word_le_nat_alt)
  have s: "unat (i + 1) = unat i + 1"
    using i by (simp add: unat_word_ariths)
  obtain ret page raised where run: "run = (ret, page, raised)"
    by (cases run) auto
  obtain run' where b: "msi_first_body domain i run = Inr run'"
    unfolding run msi_first_body_eq [OF i] by blast
  have "msi_first_pass domain n (i + 1) run' = Some (Inl OutOfBounds)"
    using Suc s i by (intro Suc.hyps) auto
  then show ?case
    using le b by (simp add: msi_first_pass.simps [of domain n i])
qed

lemma msi_second_pass_run:
  assumes "n < 0xffffffff" and "unat i \<le> Suc (unat n)"
  shows "msi_second_pass domain n i (ret, page, raised) =
     Some (ret, page, raised @ filter (\<lambda>v. v \<noteq> 0)
                                  (map (\<lambda>j. domain (of_nat j)) [unat i..<Suc (unat n)]))"
  using assms(2)
proof (induction "Suc (unat n) - unat i" arbitrary: i raised)
  case 0
  then have gt: "unat n < unat i"
    by simp
  have nle: "\<not> i \<le> n"
    using gt by (simp add: word_le_nat_alt)
  have e1: "[unat i..<Suc (unat n)] = []"
    using gt by simp
  show ?case
    unfolding e1 using nle by (simp add: msi_second_pass.simps [of domain n i])
next
  case (Suc k)
  then have le: "i \<le> n"
    by (simp add: word_le_nat_alt)
  have s: "unat (i + 1) = unat i + 1"
    using le assms(1) by (rule unat_Suc_u32)
  have ile: "unat i \<le> unat n"
    using le by (simp add: word_le_nat_alt)
  have upt: "[unat i..<Suc (unat n)] = unat i # [Suc (unat i)..<Suc (unat n)]"
    using ile by (simp add: upt_conv_Cons del: upt_Suc)
  have ih: "msi_second_pass domain n (i + 1) (ret, page, raised') =
     Some (ret, page, raised' @ filter (\<lambda>v. v \<noteq> 0)
                                  (map (\<lambda>j. domain (of_nat j)) [Suc (unat i)..<Suc (unat n)]))"
    for raised'
    using Suc.hyps(1) [of "i + 1" raised'] Suc.hyps(2) ile unfolding s
    by (simp del: upt_Suc)
  show ?case
    unfolding upt using le
    by (simp add: msi_second_pass.simps [of domain n i] msi_second_body_eq ih of_nat_unat_u32
        del: upt_Suc)
qed

text \<open>
  With \<open>num_applied_vecs\<close> at 512 or above, the first loop reads the entry of slot
  512, at byte offset 2048, past the end of the region.
\<close>

lemma handlers_past_page:
  assumes "512 \<le> unat (num_applied_vecs pcie)"
  shows "cdns_handle_msi_irq pcie = Some (Inl OutOfBounds)"
    and "sg2042_pcie_handle_msi_irq pcie = Some (Inl OutOfBounds)"
  using msi_first_pass_past_page [OF assms, of 0]
  by (simp_all add: cdns_handle_msi_irq_def sg2042_pcie_handle_msi_irq_def)

text \<open>
  C2, as stated, fails, for two reasons. First, both handlers look at bit 0 of a
  status entry only (\<open>find_next_bit\<close> with size \<open>MAX_MSI_IRQS_PER_CTRL = 1\<close>): in
  \<open>cdns_handle_msi_irq\<close>, with the entry of slot 0 equal to 2, which is not zero,
  and slot 0 mapped to interrupt 7, no interrupt is raised; the entry is zeroed
  and the fallback pass does not run. Second, \<open>sg2042_pcie_handle_msi_irq\<close> has no
  fallback pass: on a region whose entries are all zero, with slots 0 and 1 in
  use, it raises nothing and returns \<open>IRQ_NONE\<close>.
\<close>

theorem msi_dispatch_counterexample:
  "msi_page \<lparr>num_vectors = 512, num_applied_vecs = 0, msi_irq_in_use = 1,
      msi_page = (\<lambda>i. if i = 0 then 2 else 0), irq_domain_parent = (\<lambda>h. 7)\<rparr> 0 \<noteq> 0 \<and>
   map_option (map_sum id (\<lambda>(ret, page, raised). (ret, page 0, raised)))
     (cdns_handle_msi_irq
        \<lparr>num_vectors = 512, num_applied_vecs = 0, msi_irq_in_use = 1,
         msi_page = (\<lambda>i. if i = 0 then 2 else 0), irq_domain_parent = (\<lambda>h. 7)\<rparr>) =
   Some (Inr (IRQ_HANDLED, 0, [])) \<and>
   map_option (map_sum id (\<lambda>(ret, page, raised). (ret, raised)))
     (sg2042_pcie_handle_msi_irq
        \<lparr>num_vectors = 512, num_applied_vecs = 1, msi_irq_in_use = 3,
         msi_page = (\<lambda>i. 0), irq_domain_parent = (\<lambda>h. h + 100)\<rparr>) =
   Some (Inr (IRQ_NONE, []))"
  by code_simp

text \<open>
  C2, amended. Let \<open>num_applied_vecs\<close> be below 512, so that the slots
  \<open>0..num_applied_vecs\<close> lie in the 2048 bytes of the status region (the driver
  sets \<open>num_applied_vecs\<close> to a hardware number, which is below 512).

  \<^item> \<open>cdns_handle_msi_irq\<close> returns \<open>IRQ_HANDLED\<close>. If some status entry of the
    slots \<open>0..num_applied_vecs\<close> is not zero, it raises, in slot order, the
    interrupt mapped to each slot whose entry has bit 0 set and nothing else, and
    writes 0 to the non-zero entries; the entries of the slots above
    \<open>num_applied_vecs\<close> are unchanged. If every entry in that range is zero, the
    fallback pass raises the interrupt of every mapped slot of the range, in slot
    order, and the region is unchanged.
  \<^item> \<open>sg2042_pcie_handle_msi_irq\<close> hands over, in slot order, the hardware number
    of each slot of the range whose entry has bit 0 set and nothing else, and
    writes 0 to the non-zero entries in the same way. It returns \<open>IRQ_HANDLED\<close>
    if some entry of the range is not zero and \<open>IRQ_NONE\<close> otherwise, and has no
    fallback pass.
\<close>

theorem msi_dispatch:
  assumes "num_applied_vecs pcie < 512"
  shows "cdns_handle_msi_irq pcie =
     Some (Inr (IRQ_HANDLED,
           (\<lambda>j. if j \<le> unat (num_applied_vecs pcie) then 0 else msi_page pcie j),
           (if \<exists>j\<le>unat (num_applied_vecs pcie). msi_page pcie j \<noteq> 0
            then map (\<lambda>j. irq_domain_parent pcie (of_nat j))
                   (filter (\<lambda>j. bit (msi_page pcie j) 0) [0..<Suc (unat (num_applied_vecs pcie))])
            else filter (\<lambda>v. v \<noteq> 0)
                   (map (\<lambda>j. irq_domain_parent pcie (of_nat j))
                      [0..<Suc (unat (num_applied_vecs pcie))])))) \<and>
   sg2042_pcie_handle_msi_irq pcie =
     Some (Inr (if \<exists>j\<le>unat (num_applied_vecs pcie). msi_page pcie j \<noteq> 0
                then IRQ_HANDLED else IRQ_NONE,
           (\<lambda>j. if j \<le> unat (num_applied_vecs pcie) then 0 else msi_page pcie j),
           map of_nat
             (filter (\<lambda>j. bit (msi_page pcie j) 0) [0..<Suc (unat (num_applied_vecs pcie))])))"
proof -
  define n where "n = num_applied_vecs pcie"
  define m where "m = Suc (unat n)"
  define page where "page = msi_page pcie"
  define dom' where "dom' = irq_domain_parent pcie"
  define page' where "page' = (\<lambda>j. if j \<le> unat n then 0 else page j)"
  define hit where "hit \<longleftrightarrow> (\<exists>j\<le>unat n. page j \<noteq> 0)"
  have n: "unat n < 512"
    using assms by (simp add: n_def word_less_nat_alt)
  have n': "n < 0xffffffff"
    using n by (simp add: word_less_nat_alt)
  have first: "msi_first_pass d n 0 (IRQ_NONE, page, []) =
      Some (Inr (if hit then IRQ_HANDLED else IRQ_NONE, page',
            map (\<lambda>j. d (of_nat j)) (filter (\<lambda>j. bit (page j) 0) [0..<m])))" for d
    using msi_first_pass_run [OF n, of 0 d IRQ_NONE page "[]"]
    by (simp add: m_def page'_def hit_def del: upt_Suc)
  have second: "msi_second_pass dom' n 0 (IRQ_HANDLED, page', []) =
      Some (IRQ_HANDLED, page', filter (\<lambda>v. v \<noteq> 0) (map (\<lambda>j. dom' (of_nat j)) [0..<m]))"
    using msi_second_pass_run [OF n', of 0 dom' IRQ_HANDLED page' "[]"]
    by (simp add: m_def del: upt_Suc)
  have cdns: "cdns_handle_msi_irq pcie =
     Some (Inr (IRQ_HANDLED, page',
           (if hit
            then map (\<lambda>j. dom' (of_nat j)) (filter (\<lambda>j. bit (page j) 0) [0..<m])
            else filter (\<lambda>v. v \<noteq> 0) (map (\<lambda>j. dom' (of_nat j)) [0..<m]))))"
  proof (cases hit)
    case True
    then show ?thesis
      unfolding cdns_handle_msi_irq_def n_def [symmetric] page_def [symmetric]
        dom'_def [symmetric] first
      by simp
  next
    case False
    then have "\<forall>j<m. page j = 0"
      by (auto simp: hit_def m_def)
    then have nb: "filter (\<lambda>j. bit (page j) 0) [0..<m] = []"
      by (auto simp: filter_empty_conv)
    show ?thesis
      unfolding cdns_handle_msi_irq_def n_def [symmetric] page_def [symmetric]
        dom'_def [symmetric] first nb
      using False by (simp add: second)
  qed
  have sg: "sg2042_pcie_handle_msi_irq pcie =
     Some (Inr (if hit then IRQ_HANDLED else IRQ_NONE, page',
           map of_nat (filter (\<lambda>j. bit (page j) 0) [0..<m])))"
    unfolding sg2042_pcie_handle_msi_irq_def n_def [symmetric] page_def [symmetric] first ..
  show ?thesis
    unfolding cdns sg
    unfolding hit_def page'_def m_def n_def page_def dom'_def by simp
qed

theorem msi_dispatch_witness:
  "(3::u32) < 512 \<and>
   map_option (map_sum id (\<lambda>(ret, page, raised). (ret, map page [0..<5], raised)))
     (cdns_handle_msi_irq
        \<lparr>num_vectors = 512, num_applied_vecs = 3, msi_irq_in_use = 15,
         msi_page = (\<lambda>i. if i = 2 then 5 else 0), irq_domain_parent = (\<lambda>h. h + 100)\<rparr>) =
     Some (Inr (IRQ_HANDLED, [0, 0, 0, 0, 0], [102])) \<and>
   map_option (map_sum id (\<lambda>(ret, page, raised). (ret, map page [0..<5], raised)))
     (sg2042_pcie_handle_msi_irq
        \<lparr>num_vectors = 512, num_applied_vecs = 3, msi_irq_in_use = 15,
         msi_page = (\<lambda>i. if i = 2 then 5 else 0), irq_domain_parent = (\<lambda>h. h + 100)\<rparr>) =
     Some (Inr (IRQ_HANDLED, [0, 0, 0, 0, 0], [2])) \<and>
   map_option (map_sum id (\<lambda>(ret, page, raised). (ret, map page [0..<5], raised)))
     (cdns_handle_msi_irq
        \<lparr>num_vectors = 512, num_applied_vecs = 3, msi_irq_in_use = 15,
         msi_page = (\<lambda>i. 0), irq_domain_parent = (\<lambda>h. if h = 1 then 0 else h + 100)\<rparr>) =
     Some (Inr (IRQ_HANDLED, [0, 0, 0, 0, 0], [100, 102, 103]))"
  using msi_dispatch
          [of "\<lparr>num_vectors = 512, num_applied_vecs = 3, msi_irq_in_use = 15,
                 msi_page = (\<lambda>i. if i = 2 then 5 else 0),
                 irq_domain_parent = (\<lambda>h. h + 100)\<rparr>"]
        msi_dispatch
          [of "\<lparr>num_vectors = 512, num_applied_vecs = 3, msi_irq_in_use = 15,
                 msi_page = (\<lambda>i. 0),
                 irq_domain_parent = (\<lambda>h. if h = 1 then 0 else h + 100)\<rparr>"]
  by (simp add: upt_conv_Cons)


section \<open>Properties of the rate change of the older driver\<close>

lemma mango_fbdiv_body_no_parent:
  "refdiv' \<noteq> 0 \<Longrightarrow> mango_fbdiv_body req_rate 0 refdiv' fbdiv' best = Inr (False, best)"
  by (simp add: mango_fbdiv_body_def mango_foutvco_def PLL_FREQ_MIN_def MHZ_def KHZ_def)

lemma mango_fbdiv_loop_no_parent:
  "refdiv' \<noteq> 0 \<Longrightarrow> mango_fbdiv_loop req_rate 0 refdiv' fbdiv' best = Inr (False, best)"
proof (induction req_rate "0::u32" refdiv' fbdiv' best rule: mango_fbdiv_loop.induct)
  case (1 req_rate refdiv' fbdiv' best)
  then show ?case
    by (subst mango_fbdiv_loop.simps) (simp add: mango_fbdiv_body_no_parent)
qed

lemma mango_refdiv_loop_no_parent:
  "refdiv' \<noteq> 0 \<Longrightarrow> mango_refdiv_loop req_rate 0 refdiv' best = Inr (False, best)"
proof (induction req_rate "0::u32" refdiv' best rule: mango_refdiv_loop.induct)
  case (1 req_rate refdiv' best)
  show ?case
  proof (cases "refdiv' < mango_REFDIV_MAX + 1")
    case True
    then have "refdiv' + 1 \<noteq> 0"
      by (auto simp: mango_REFDIV_MAX_def word_less_nat_alt unat_word_ariths
          simp flip: unat_eq_zero)
    then have "mango_refdiv_loop req_rate 0 (refdiv' + 1) best = Inr (False, best)"
      using "1.hyps" [OF True, of "(False, best)" False best] "1.prems"
      by (simp add: mango_fbdiv_loop_no_parent)
    then show ?thesis
      using True "1.prems"
      by (subst mango_refdiv_loop.simps) (simp add: mango_fbdiv_loop_no_parent)
  next
    case False
    then show ?thesis
      by (subst mango_refdiv_loop.simps) simp
  qed
qed

lemma mango_no_parent_no_setting:
  "mango_get_pll_ctl_setting zero_ctrl rate 0 = Inr zero_ctrl"
  by (simp add: mango_get_pll_ctl_setting_def mango_refdiv_loop_no_parent mango_REFDIV_MIN_def)

text \<open>
  C10. \<open>mango_clk_pll_set_rate\<close> clears the enable bit of the PLL first and runs
  the search after it. When the search leaves \<open>pctrl_table.freq\<close> at 0, the function
  returns 0 having made one register write only, the one that cleared the enable
  bit: the control register is not written and keeps its old word, and the enable
  bit is not set again.
\<close>

theorem mango_set_rate_no_setting:
  assumes "mango_get_pll_ctl_setting zero_ctrl rate parent_rate = Inr pctrl_table"
    and "freq pctrl_table = 0"
  shows "\<exists>m'. mango_clk_pll_set_rate pll m rate parent_rate = Some (Inr (0, m')) \<and>
           wlog m' = wlog m @ [(offset_enable pll,
                                regs m (offset_enable pll) AND
                                  NOT (push_bit (unat (shift_enable pll)) 1))] \<and>
           regs m' = (regs m)(offset_enable pll :=
                                regs m (offset_enable pll) AND
                                  NOT (push_bit (unat (shift_enable pll)) 1)) \<and>
           \<not> bit (regs m' (offset_enable pll)) (unat (shift_enable pll)) \<and>
           (offset_ctrl pll \<noteq> offset_enable pll \<longrightarrow>
              regs m' (offset_ctrl pll) = regs m (offset_ctrl pll))"
  using assms
  by (simp add: mango_clk_pll_set_rate_def mango_pll_enable_def regmap_write_def regmap_read_def
      Let_def bit_simps)

theorem mango_set_rate_no_setting_witness:
  "\<exists>m'. mango_clk_pll_set_rate
          \<lparr>offset_status = 0xc0, offset_enable = 0xc4, offset_ctrl = 0xe8,
           shift_status_lock = 8, shift_status_updating = 0, shift_enable = 0\<rparr>
          \<lparr>regs = (\<lambda>off. if off = 0xc4 then 0xf else 0), wlog = []\<rparr>
          1000000000 0 = Some (Inr (0, m')) \<and>
        wlog m' = [(0xc4, 0xe)] \<and> regs m' 0xc4 = 0xe \<and> regs m' 0xe8 = 0"
  using mango_set_rate_no_setting [OF mango_no_parent_no_setting,
          of "\<lparr>offset_status = 0xc0, offset_enable = 0xc4, offset_ctrl = 0xe8,
               shift_status_lock = 8, shift_status_updating = 0, shift_enable = 0\<rparr>"
             "\<lparr>regs = (\<lambda>off. if off = 0xc4 then 0xf else 0), wlog = []\<rparr>" 1000000000]
  by (auto simp: zero_ctrl_def)



section \<open>Properties of the search\<close>

lemma abs_diff_same: "abs_diff a a = 0"
  by (simp add: abs_diff_def)

lemma fbdiv_body_candidate:
  "fbdiv_body R P r f best =
     (case pll_candidate R P r f of
        Inl e \<Rightarrow> Inl e
      | Inr None \<Rightarrow> Inr (False, best)
      | Inr (Some c) \<Rightarrow>
          if abs_diff (freq c) R < abs_diff (freq best) R then Inr (freq c = R, c)
          else Inr (False, best))"
  by (cases best)
     (simp add: fbdiv_body_def pll_candidate_def split: sum.splits option.splits prod.splits)

lemma u32_succ_le:
  fixes f g n :: u32
  assumes "f < n + 1" and "n < 0xffffffff"
  shows "f \<le> g \<longleftrightarrow> g = f \<or> f + 1 \<le> g"
proof -
  have n: "unat (n + 1) = unat n + 1"
    using assms(2) by (simp add: unat_word_ariths word_less_nat_alt)
  then have "unat f < 4294967295"
    using assms by (simp add: word_less_nat_alt)
  then have "unat (f + 1) = unat f + 1"
    by (simp add: unat_word_ariths)
  then show ?thesis
    by (auto simp: word_le_nat_alt word_unat_eq_iff)
qed

lemma u32_not_less_succ:
  fixes f g n :: u32
  assumes "\<not> f < n + 1" and "n < 0xffffffff"
  shows "\<not> (f \<le> g \<and> g \<le> n)"
proof -
  have n: "unat (n + 1) = unat n + 1"
    using assms(2) by (simp add: unat_word_ariths word_less_nat_alt)
  then show ?thesis
    using assms(1) by (auto simp: word_le_nat_alt word_less_nat_alt)
qed

lemma FBDIV_MAX_less: "FBDIV_MAX < 0xffffffff"
  by (simp add: FBDIV_MAX_def)

lemma REFDIV_MAX_less: "REFDIV_MAX < 0xffffffff"
  by (simp add: REFDIV_MAX_def)

lemma fbdiv_loop_inv:
  assumes "fbdiv_loop R P r f best = Inr (ret, b)"
  shows "(b = best \<or> (\<exists>f'. f \<le> f' \<and> f' \<le> FBDIV_MAX \<and> pll_candidate R P r f' = Inr (Some b))) \<and>
         (ret \<longrightarrow> freq b = R) \<and>
         abs_diff (freq b) R \<le> abs_diff (freq best) R \<and>
         (\<forall>f' c. f \<le> f' \<and> f' \<le> FBDIV_MAX \<and> pll_candidate R P r f' = Inr (Some c) \<longrightarrow>
            abs_diff (freq b) R \<le> abs_diff (freq c) R) \<and>
         (\<not> ret \<longrightarrow> (\<forall>f'. f \<le> f' \<and> f' \<le> FBDIV_MAX \<longrightarrow> (\<exists>c. pll_candidate R P r f' = Inr c)))"
  using assms
proof (induction R P r f best rule: fbdiv_loop.induct)
  case (1 R P r f best)
  show ?case
  proof (cases "f < FBDIV_MAX + 1")
    case False
    then have "fbdiv_loop R P r f best = Inr (False, best)"
      by (subst fbdiv_loop.simps) simp
    then have "ret = False" "b = best"
      using "1.prems" by simp_all
    moreover have "\<not> (f \<le> f' \<and> f' \<le> FBDIV_MAX)" for f'
      using False FBDIV_MAX_less by (rule u32_not_less_succ)
    ultimately show ?thesis
      by auto
  next
    case lt: True
    note rng = u32_succ_le [OF lt FBDIV_MAX_less]
    have fle: "f \<le> FBDIV_MAX"
      using lt by (simp add: FBDIV_MAX_def word_less_nat_alt word_le_nat_alt unat_word_ariths)
    consider (fault) e where "pll_candidate R P r f = Inl e"
      | (skip) "pll_candidate R P r f = Inr None"
      | (lose) c where "pll_candidate R P r f = Inr (Some c)"
          "\<not> abs_diff (freq c) R < abs_diff (freq best) R"
      | (hit) c where "pll_candidate R P r f = Inr (Some c)"
          "abs_diff (freq c) R < abs_diff (freq best) R" "freq c = R"
      | (win) c where "pll_candidate R P r f = Inr (Some c)"
          "abs_diff (freq c) R < abs_diff (freq best) R" "freq c \<noteq> R"
    proof (cases "pll_candidate R P r f")
      case (Inl e)
      then show ?thesis by (rule fault)
    next
      case (Inr oc)
      show ?thesis
      proof (cases oc)
        case None
        with Inr show ?thesis by (intro skip) simp
      next
        case (Some c)
        with Inr have c: "pll_candidate R P r f = Inr (Some c)" by simp
        show ?thesis
          using lose [OF c] hit [OF c] win [OF c] by blast
      qed
    qed
    then show ?thesis
    proof cases
      case fault
      then have "fbdiv_loop R P r f best = Inl e"
        using lt by (subst fbdiv_loop.simps) (simp add: fbdiv_body_candidate)
      then show ?thesis
        using "1.prems" by simp
    next
      case skip
      then have body: "fbdiv_body R P r f best = Inr (False, best)"
        by (simp add: fbdiv_body_candidate)
      then have "fbdiv_loop R P r (f + 1) best = Inr (ret, b)"
        using "1.prems" lt by (subst (asm) fbdiv_loop.simps) simp
      from "1.IH" [OF lt body refl _ this] have IH:
        "(b = best \<or> (\<exists>f'. f + 1 \<le> f' \<and> f' \<le> FBDIV_MAX \<and> pll_candidate R P r f' = Inr (Some b))) \<and>
         (ret \<longrightarrow> freq b = R) \<and>
         abs_diff (freq b) R \<le> abs_diff (freq best) R \<and>
         (\<forall>f' c. f + 1 \<le> f' \<and> f' \<le> FBDIV_MAX \<and> pll_candidate R P r f' = Inr (Some c) \<longrightarrow>
            abs_diff (freq b) R \<le> abs_diff (freq c) R) \<and>
         (\<not> ret \<longrightarrow> (\<forall>f'. f + 1 \<le> f' \<and> f' \<le> FBDIV_MAX \<longrightarrow> (\<exists>c. pll_candidate R P r f' = Inr c)))"
        by simp
      show ?thesis
        using IH skip by (auto simp: rng)
    next
      case lose
      then have body: "fbdiv_body R P r f best = Inr (False, best)"
        by (simp add: fbdiv_body_candidate)
      then have "fbdiv_loop R P r (f + 1) best = Inr (ret, b)"
        using "1.prems" lt by (subst (asm) fbdiv_loop.simps) simp
      from "1.IH" [OF lt body refl _ this] have IH:
        "(b = best \<or> (\<exists>f'. f + 1 \<le> f' \<and> f' \<le> FBDIV_MAX \<and> pll_candidate R P r f' = Inr (Some b))) \<and>
         (ret \<longrightarrow> freq b = R) \<and>
         abs_diff (freq b) R \<le> abs_diff (freq best) R \<and>
         (\<forall>f' c. f + 1 \<le> f' \<and> f' \<le> FBDIV_MAX \<and> pll_candidate R P r f' = Inr (Some c) \<longrightarrow>
            abs_diff (freq b) R \<le> abs_diff (freq c) R) \<and>
         (\<not> ret \<longrightarrow> (\<forall>f'. f + 1 \<le> f' \<and> f' \<le> FBDIV_MAX \<longrightarrow> (\<exists>c. pll_candidate R P r f' = Inr c)))"
        by simp
      have "abs_diff (freq b) R \<le> abs_diff (freq c) R"
        using IH lose(2) by (meson order_trans linorder_not_less)
      then show ?thesis
        using IH lose(1) by (auto simp: rng)
    next
      case hit
      then have "fbdiv_loop R P r f best = Inr (True, c)"
        using lt by (subst fbdiv_loop.simps) (simp add: fbdiv_body_candidate)
      then have "ret = True" "b = c"
        using "1.prems" by simp_all
      then show ?thesis
        using hit fle by (auto simp: abs_diff_same)
    next
      case win
      then have body: "fbdiv_body R P r f best = Inr (False, c)"
        by (simp add: fbdiv_body_candidate)
      then have "fbdiv_loop R P r (f + 1) c = Inr (ret, b)"
        using "1.prems" lt by (subst (asm) fbdiv_loop.simps) simp
      from "1.IH" [OF lt body refl _ this] have IH:
        "(b = c \<or> (\<exists>f'. f + 1 \<le> f' \<and> f' \<le> FBDIV_MAX \<and> pll_candidate R P r f' = Inr (Some b))) \<and>
         (ret \<longrightarrow> freq b = R) \<and>
         abs_diff (freq b) R \<le> abs_diff (freq c) R \<and>
         (\<forall>f' c. f + 1 \<le> f' \<and> f' \<le> FBDIV_MAX \<and> pll_candidate R P r f' = Inr (Some c) \<longrightarrow>
            abs_diff (freq b) R \<le> abs_diff (freq c) R) \<and>
         (\<not> ret \<longrightarrow> (\<forall>f'. f + 1 \<le> f' \<and> f' \<le> FBDIV_MAX \<longrightarrow> (\<exists>c. pll_candidate R P r f' = Inr c)))"
        by simp
      have le: "abs_diff (freq b) R \<le> abs_diff (freq best) R"
        using IH win(2) by (meson order_trans less_imp_le)
      have "b = best \<or> (\<exists>f'. f \<le> f' \<and> f' \<le> FBDIV_MAX \<and> pll_candidate R P r f' = Inr (Some b))"
        using IH win(1) fle by (auto simp: rng)
      then show ?thesis
        using IH win(1) le by (auto simp: rng)
    qed
  qed
qed


lemma fbdiv_loop_total:
  assumes "\<forall>f'. f \<le> f' \<and> f' \<le> FBDIV_MAX \<longrightarrow> (\<exists>c. pll_candidate R P r f' = Inr c)"
  shows "\<exists>ret b. fbdiv_loop R P r f best = Inr (ret, b)"
  using assms
proof (induction R P r f best rule: fbdiv_loop.induct)
  case (1 R P r f best)
  show ?case
  proof (cases "f < FBDIV_MAX + 1")
    case False
    then have "fbdiv_loop R P r f best = Inr (False, best)"
      by (subst fbdiv_loop.simps) simp
    then show ?thesis
      by blast
  next
    case lt: True
    note rng = u32_succ_le [OF lt FBDIV_MAX_less]
    have fle: "f \<le> FBDIV_MAX"
      using lt by (simp add: FBDIV_MAX_def word_less_nat_alt word_le_nat_alt unat_word_ariths)
    then obtain oc where oc: "pll_candidate R P r f = Inr oc"
      using "1.prems" by blast
    have "\<exists>ret1 b1. fbdiv_body R P r f best = Inr (ret1, b1)"
      by (cases oc) (auto simp: fbdiv_body_candidate oc)
    then obtain ret1 b1 where body: "fbdiv_body R P r f best = Inr (ret1, b1)"
      by blast
    show ?thesis
    proof (cases ret1)
      case True
      then have "fbdiv_loop R P r f best = Inr (True, b1)"
        using lt body by (subst fbdiv_loop.simps) simp
      then show ?thesis
        by blast
    next
      case False
      have "\<forall>f'. f + 1 \<le> f' \<and> f' \<le> FBDIV_MAX \<longrightarrow> (\<exists>c. pll_candidate R P r f' = Inr c)"
        using "1.prems" by (auto simp: rng)
      from "1.IH" [OF lt body refl False this] show ?thesis
        using lt body False by (subst fbdiv_loop.simps) simp
    qed
  qed
qed

lemma refdiv_loop_inv:
  assumes "refdiv_loop R P r best = Inr (ret, b)"
  shows "(b = best \<or>
          (\<exists>r' f'. r \<le> r' \<and> r' \<le> REFDIV_MAX \<and> FBDIV_MIN \<le> f' \<and> f' \<le> FBDIV_MAX \<and>
                   10 < P div ucast r' \<and> pll_candidate R P r' f' = Inr (Some b))) \<and>
         (ret \<longrightarrow> freq b = R) \<and>
         abs_diff (freq b) R \<le> abs_diff (freq best) R \<and>
         (\<forall>r' f' c. r \<le> r' \<and> r' \<le> REFDIV_MAX \<and> FBDIV_MIN \<le> f' \<and> f' \<le> FBDIV_MAX \<and>
                   10 < P div ucast r' \<and> pll_candidate R P r' f' = Inr (Some c) \<longrightarrow>
            abs_diff (freq b) R \<le> abs_diff (freq c) R) \<and>
         (\<not> ret \<longrightarrow>
            (\<forall>r' f'. r \<le> r' \<and> r' \<le> REFDIV_MAX \<and> FBDIV_MIN \<le> f' \<and> f' \<le> FBDIV_MAX \<and>
                   10 < P div ucast r' \<longrightarrow> (\<exists>c. pll_candidate R P r' f' = Inr c)))"
  using assms
proof (induction R P r best rule: refdiv_loop.induct)
  case (1 R P r best)
  show ?case
  proof (cases "r < REFDIV_MAX + 1")
    case False
    then have "refdiv_loop R P r best = Inr (False, best)"
      by (subst refdiv_loop.simps) simp
    then have "ret = False" "b = best"
      using "1.prems" by simp_all
    moreover have "\<not> (r \<le> r' \<and> r' \<le> REFDIV_MAX)" for r'
      using False REFDIV_MAX_less by (rule u32_not_less_succ)
    ultimately show ?thesis
      by auto
  next
    case lt: True
    note rng = u32_succ_le [OF lt REFDIV_MAX_less]
    have rle: "r \<le> REFDIV_MAX"
      using lt by (simp add: REFDIV_MAX_def word_less_nat_alt word_le_nat_alt unat_word_ariths)
    obtain ret1 b1 where body: "refdiv_body R P r best = Inr (ret1, b1)"
      using "1.prems" lt
      by (subst (asm) refdiv_loop.simps) (auto split: sum.splits)
    have rnz: "r \<noteq> 0"
      using body by (auto simp: refdiv_body_def do_div_def split: if_splits)
    show ?thesis
    proof (cases "P div ucast r \<le> 10")
      case True
      then have b1: "ret1 = False" "b1 = best"
        using body rnz by (simp_all add: refdiv_body_def do_div_def)
      then have "refdiv_loop R P (r + 1) best = Inr (ret, b)"
        using "1.prems" lt body by (subst (asm) refdiv_loop.simps) simp
      from "1.IH" [OF lt body [unfolded b1] refl _ this] have IH:
        "(b = best \<or>
          (\<exists>r' f'. r + 1 \<le> r' \<and> r' \<le> REFDIV_MAX \<and> FBDIV_MIN \<le> f' \<and> f' \<le> FBDIV_MAX \<and>
                   10 < P div ucast r' \<and> pll_candidate R P r' f' = Inr (Some b))) \<and>
         (ret \<longrightarrow> freq b = R) \<and>
         abs_diff (freq b) R \<le> abs_diff (freq best) R \<and>
         (\<forall>r' f' c. r + 1 \<le> r' \<and> r' \<le> REFDIV_MAX \<and> FBDIV_MIN \<le> f' \<and> f' \<le> FBDIV_MAX \<and>
                   10 < P div ucast r' \<and> pll_candidate R P r' f' = Inr (Some c) \<longrightarrow>
            abs_diff (freq b) R \<le> abs_diff (freq c) R) \<and>
         (\<not> ret \<longrightarrow>
            (\<forall>r' f'. r + 1 \<le> r' \<and> r' \<le> REFDIV_MAX \<and> FBDIV_MIN \<le> f' \<and> f' \<le> FBDIV_MAX \<and>
                   10 < P div ucast r' \<longrightarrow> (\<exists>c. pll_candidate R P r' f' = Inr c)))"
        by simp
      have nr: "\<not> 10 < P div ucast r"
        using True by simp
      show ?thesis
        using IH nr by (auto simp: rng)
    next
      case stable: False
      then have st: "10 < P div ucast r"
        by simp
      have inner: "fbdiv_loop R P r FBDIV_MIN best = Inr (ret1, b1)"
        using body rnz stable by (simp add: refdiv_body_def do_div_def)
      note I1 = fbdiv_loop_inv [OF inner]
      show ?thesis
      proof (cases ret1)
        case True
        then have "refdiv_loop R P r best = Inr (True, b1)"
          using lt body by (subst refdiv_loop.simps) simp
        then have rb: "ret = True" "b = b1"
          using "1.prems" by simp_all
        have fr: "freq b1 = R"
          using I1 True by simp
        have "b1 = best \<or>
          (\<exists>r' f'. r \<le> r' \<and> r' \<le> REFDIV_MAX \<and> FBDIV_MIN \<le> f' \<and> f' \<le> FBDIV_MAX \<and>
                   10 < P div ucast r' \<and> pll_candidate R P r' f' = Inr (Some b1))"
          using I1 st rle by blast
        then show ?thesis
          using rb fr by (simp add: abs_diff_same)
      next
        case False
        then have "refdiv_loop R P (r + 1) b1 = Inr (ret, b)"
          using "1.prems" lt body by (subst (asm) refdiv_loop.simps) simp
        from "1.IH" [OF lt body refl False this] have IH:
        "(b = b1 \<or>
          (\<exists>r' f'. r + 1 \<le> r' \<and> r' \<le> REFDIV_MAX \<and> FBDIV_MIN \<le> f' \<and> f' \<le> FBDIV_MAX \<and>
                   10 < P div ucast r' \<and> pll_candidate R P r' f' = Inr (Some b))) \<and>
         (ret \<longrightarrow> freq b = R) \<and>
         abs_diff (freq b) R \<le> abs_diff (freq b1) R \<and>
         (\<forall>r' f' c. r + 1 \<le> r' \<and> r' \<le> REFDIV_MAX \<and> FBDIV_MIN \<le> f' \<and> f' \<le> FBDIV_MAX \<and>
                   10 < P div ucast r' \<and> pll_candidate R P r' f' = Inr (Some c) \<longrightarrow>
            abs_diff (freq b) R \<le> abs_diff (freq c) R) \<and>
         (\<not> ret \<longrightarrow>
            (\<forall>r' f'. r + 1 \<le> r' \<and> r' \<le> REFDIV_MAX \<and> FBDIV_MIN \<le> f' \<and> f' \<le> FBDIV_MAX \<and>
                   10 < P div ucast r' \<longrightarrow> (\<exists>c. pll_candidate R P r' f' = Inr c)))"
          by simp
        have a: "b = best \<or>
          (\<exists>r' f'. r \<le> r' \<and> r' \<le> REFDIV_MAX \<and> FBDIV_MIN \<le> f' \<and> f' \<le> FBDIV_MAX \<and>
                   10 < P div ucast r' \<and> pll_candidate R P r' f' = Inr (Some b))"
        proof -
          consider "b = b1" "b1 = best"
            | f' where "b = b1" "FBDIV_MIN \<le> f'" "f' \<le> FBDIV_MAX"
                "pll_candidate R P r f' = Inr (Some b1)"
            | r' f' where "r + 1 \<le> r'" "r' \<le> REFDIV_MAX" "FBDIV_MIN \<le> f'" "f' \<le> FBDIV_MAX"
                "10 < P div ucast r'" "pll_candidate R P r' f' = Inr (Some b)"
            using IH I1 by blast
          then show ?thesis
          proof cases
            case 1
            then show ?thesis by simp
          next
            case 2
            then show ?thesis using st rle by blast
          next
            case 3
            then have "r \<le> r'" by (simp add: rng)
            with 3 show ?thesis by blast
          qed
        qed
        have c: "abs_diff (freq b) R \<le> abs_diff (freq best) R"
          using IH I1 by (meson order_trans)
        have d: "abs_diff (freq b) R \<le> abs_diff (freq c) R"
          if "r \<le> r'" "r' \<le> REFDIV_MAX" "FBDIV_MIN \<le> f'" "f' \<le> FBDIV_MAX"
            "10 < P div ucast r'" "pll_candidate R P r' f' = Inr (Some c)" for r' f' c
        proof (cases "r' = r")
          case True
          then have "abs_diff (freq b1) R \<le> abs_diff (freq c) R"
            using I1 that by blast
          then show ?thesis
            using IH by (meson order_trans)
        next
          case False
          then have "r + 1 \<le> r'"
            using that(1) by (simp add: rng)
          then show ?thesis
            using IH that by blast
        qed
        have e: "\<exists>c. pll_candidate R P r' f' = Inr c"
          if "\<not> ret" "r \<le> r'" "r' \<le> REFDIV_MAX" "FBDIV_MIN \<le> f'" "f' \<le> FBDIV_MAX"
            "10 < P div ucast r'" for r' f'
        proof (cases "r' = r")
          case True
          then show ?thesis
            using I1 False that by blast
        next
          case ne: False
          then have "r + 1 \<le> r'"
            using that(2) by (simp add: rng)
          then show ?thesis
            using IH that by blast
        qed
        show ?thesis
          using a c d e IH by blast
      qed
    qed
  qed
qed


lemma refdiv_loop_total:
  assumes "\<forall>r' f'. r \<le> r' \<and> r' \<le> REFDIV_MAX \<and> FBDIV_MIN \<le> f' \<and> f' \<le> FBDIV_MAX \<longrightarrow>
             (\<exists>c. pll_candidate R P r' f' = Inr c)"
    and "r \<noteq> 0"
  shows "\<exists>ret b. refdiv_loop R P r best = Inr (ret, b)"
  using assms
proof (induction R P r best rule: refdiv_loop.induct)
  case (1 R P r best)
  show ?case
  proof (cases "r < REFDIV_MAX + 1")
    case False
    then have "refdiv_loop R P r best = Inr (False, best)"
      by (subst refdiv_loop.simps) simp
    then show ?thesis
      by blast
  next
    case lt: True
    note rng = u32_succ_le [OF lt REFDIV_MAX_less]
    have rle: "r \<le> REFDIV_MAX"
      using lt by (simp add: REFDIV_MAX_def word_less_nat_alt word_le_nat_alt unat_word_ariths)
    have "\<forall>f'. FBDIV_MIN \<le> f' \<and> f' \<le> FBDIV_MAX \<longrightarrow> (\<exists>c. pll_candidate R P r f' = Inr c)"
      using "1.prems"(1) rle by blast
    from fbdiv_loop_total [OF this] obtain ret0 b0
      where "fbdiv_loop R P r FBDIV_MIN best = Inr (ret0, b0)"
      by blast
    then have "\<exists>ret1 b1. refdiv_body R P r best = Inr (ret1, b1)"
      using "1.prems"(2) by (cases "P div ucast r \<le> 10") (auto simp: refdiv_body_def do_div_def)
    then obtain ret1 b1 where body: "refdiv_body R P r best = Inr (ret1, b1)"
      by blast
    show ?thesis
    proof (cases ret1)
      case True
      then have "refdiv_loop R P r best = Inr (True, b1)"
        using lt body by (subst refdiv_loop.simps) simp
      then show ?thesis
        by blast
    next
      case False
      have n0: "r + 1 \<noteq> 0"
        using lt by (auto simp: REFDIV_MAX_def word_less_nat_alt unat_word_ariths
            simp flip: unat_eq_zero)
      have "\<forall>r' f'. r + 1 \<le> r' \<and> r' \<le> REFDIV_MAX \<and> FBDIV_MIN \<le> f' \<and> f' \<le> FBDIV_MAX \<longrightarrow>
             (\<exists>c. pll_candidate R P r' f' = Inr c)"
        using "1.prems"(1) by (auto simp: rng)
      from "1.IH" [OF lt body refl False this n0] show ?thesis
        using lt body False by (subst refdiv_loop.simps) simp
    qed
  qed
qed


lemma abs_diff_zero: "abs_diff 0 R = R"
  by (simp add: abs_diff_def)

lemma solver_in_range:
  assumes "P = PLL_FREF_SG2042" and "PLL_FOUTPOSTDIV_MIN \<le> R" and "R \<le> PLL_FOUTPOSTDIV_MAX"
  shows "sg2042_get_pll_ctl_setting best0 R P =
           (case refdiv_loop R P REFDIV_MIN zero_ctrl of
              Inl e \<Rightarrow> Inl e
            | Inr (returned, best') \<Rightarrow>
                if returned then Inr (0, best')
                else if freq best' = 0 then Inr (- EINVAL, best')
                else Inr (0, best'))"
proof -
  have "\<not> R < PLL_FOUTPOSTDIV_MIN" and "\<not> R > PLL_FOUTPOSTDIV_MAX"
    using assms(2,3) by (simp_all add: linorder_not_less)
  then show ?thesis
    using assms(1) by (simp add: sg2042_get_pll_ctl_setting_def)
qed



section \<open>The candidates of the search at the parent rate of 25 MHz\<close>

lemma unat_ucast_u64_u32: "unat (x::u64) < 2 ^ 32 \<Longrightarrow> unat (ucast x :: u32) = unat x"
  by (simp add: unsigned_ucast_eq take_bit_nat_eq_self_iff)

lemma unat_25M: "unat (25000000 :: u64) = 25000000"
  by simp

lemma foutvco_25M:
  assumes "r \<noteq> 0"
  shows "\<exists>v. sg2042_foutvco 25000000 f r = Inr v \<and> unat v = 25000000 * unat f div unat r"
  using assms
  by (simp add: sg2042_foutvco_def do_div_def unat_div unat_ucast_u32_u64 unat_mult_u64_u32)


lemma postdiv_tmp0_25M:
  assumes "r \<noteq> 0" and "unat R < 2 ^ 32" and "R \<noteq> 0"
  shows "\<exists>t. postdiv_tmp0 R 25000000 f r = Inr t \<and>
             unat t = 25000000 div unat r * unat f div unat R"
proof -
  have rn: "0 < unat r"
    using assms(1) by (simp add: unat_gt_0)
  have q: "unat ((25000000 :: u64) div ucast r) = 25000000 div unat r"
    by (simp add: unat_div unat_ucast_u32_u64)
  have "unat ((25000000 :: u64) div ucast r) \<le> 25000000"
    unfolding q by (rule div_le_dividend)
  then have "unat ((25000000 :: u64) div ucast r) < 2 ^ 32"
    by simp
  then have m: "unat ((25000000 :: u64) div ucast r * ucast f) = 25000000 div unat r * unat f"
    using q by (simp add: unat_mult_u64_u32)
  have Rn: "(ucast R :: u32) \<noteq> 0"
    using assms(2,3) by (metis unat_eq_zero unat_ucast_u64_u32)
  have "unat (ucast (ucast R :: u32) :: u64) = unat R"
    using assms(2) by (simp add: unat_ucast_u32_u64 unat_ucast_u64_u32)
  then show ?thesis
    using assms(1) Rn m by (simp add: postdiv_tmp0_def do_div_def unat_div)
qed



lemma pll_candidate_25M:
  assumes "r \<noteq> 0" and "unat R < 2 ^ 32" and "R \<noteq> 0"
  obtains v t where "unat v = 25000000 * unat f div unat r"
    and "unat t = 25000000 div unat r * unat f div unat R"
    and "pll_candidate R 25000000 r f =
          (if v < PLL_FOUTVCO_MIN \<or> PLL_FOUTVCO_MAX < v then Inr None
           else case postdiv_of_tmp0 t of
                  None \<Rightarrow> Inr None
                | Some (p1, p2) \<Rightarrow>
                    if p1 * p2 = 0 then Inl DivideByZero
                    else Inr (Some \<lparr>freq = v div ucast (p1 * p2), fbdiv = f, postdiv1 = p1,
                                    postdiv2 = p2, refdiv = r\<rparr>))"
proof -
  obtain v where v: "sg2042_foutvco 25000000 f r = Inr v"
    "unat v = 25000000 * unat f div unat r"
    using foutvco_25M [OF assms(1)] by blast
  obtain t where t: "postdiv_tmp0 R 25000000 f r = Inr t"
    "unat t = 25000000 div unat r * unat f div unat R"
    using postdiv_tmp0_25M [OF assms] by blast
  have "pll_candidate R 25000000 r f =
          (if v < PLL_FOUTVCO_MIN \<or> PLL_FOUTVCO_MAX < v then Inr None
           else case postdiv_of_tmp0 t of
                  None \<Rightarrow> Inr None
                | Some (p1, p2) \<Rightarrow>
                    if p1 * p2 = 0 then Inl DivideByZero
                    else Inr (Some \<lparr>freq = v div ucast (p1 * p2), fbdiv = f, postdiv1 = p1,
                                    postdiv2 = p2, refdiv = r\<rparr>))"
    by (simp add: pll_candidate_def v(1) sg2042_pll_get_postdiv_1_2_def t(1) do_div_def
        split: option.splits)
  with v(2) t(2) show ?thesis
    by (rule that)
qed

lemma vco_range_nat:
  "v < PLL_FOUTVCO_MIN \<longleftrightarrow> unat v < 800000000"
  "PLL_FOUTVCO_MAX < v \<longleftrightarrow> 3200000000 < unat v"
  by (simp_all add: PLL_FOUTVCO_MIN_def PLL_FOUTVCO_MAX_def MHZ_def KHZ_def word_less_nat_alt)

lemma postdiv_small:
  assumes "unat t \<le> 7"
  shows "postdiv_of_tmp0 t = Some (ucast t, 1)" and "unat (ucast t * 1 :: u32) = unat t"
proof -
  show "postdiv_of_tmp0 t = Some (ucast t, 1)"
    using assms by (simp add: postdiv_of_tmp0_def word_le_nat_alt)
  have "unat t < 2 ^ 32"
    using assms by simp
  then show "unat (ucast t * 1 :: u32) = unat t"
    by (simp add: unat_ucast_u64_u32)
qed

lemma postdiv_table_range_all:
  "list_all (\<lambda>n. case postdiv_of_tmp0 (of_nat n) of
                   None \<Rightarrow> False
                 | Some (p1, p2) \<Rightarrow> n \<le> unat (p1 * p2) \<and> unat (p1 * p2) \<le> 49) [1..<50]"
  by code_simp

lemma postdiv_table_range:
  assumes "1 \<le> unat t" and "unat t \<le> 49"
  obtains p1 p2 where "postdiv_of_tmp0 t = Some (p1, p2)" and "unat t \<le> unat (p1 * p2)"
    and "unat (p1 * p2) \<le> 49"
proof -
  have "unat t \<in> set [1..<50]"
    using assms by simp
  then have "case postdiv_of_tmp0 (of_nat (unat t)) of
                   None \<Rightarrow> False
                 | Some (p1, p2) \<Rightarrow> unat t \<le> unat (p1 * p2) \<and> unat (p1 * p2) \<le> 49"
    using postdiv_table_range_all unfolding list_all_iff by blast
  then show ?thesis
    using that by (auto split: option.splits)
qed

lemma postdiv_above_table_nat: "50 \<le> unat t \<Longrightarrow> postdiv_of_tmp0 t = None"
  by (rule postdiv_above_table) (simp add: word_less_nat_alt)


lemma postdiv_some_range:
  assumes "postdiv_of_tmp0 t = Some (p1, p2)" and "p1 * p2 \<noteq> 0"
  shows "1 \<le> unat t \<and> unat t \<le> unat (p1 * p2) \<and> unat (p1 * p2) \<le> 49 \<and>
         (unat t \<le> 7 \<longrightarrow> unat (p1 * p2) = unat t)"
proof -
  have t0: "unat t \<noteq> 0"
  proof
    assume "unat t = 0"
    then have "t = 0"
      by (simp add: unat_eq_zero)
    then show False
      using assms by (simp add: postdiv_of_tmp0_def)
  qed
  have t50: "unat t \<le> 49"
    using assms(1) postdiv_above_table_nat [of t] by (cases "50 \<le> unat t") auto
  from t0 t50 obtain q1 q2 where q: "postdiv_of_tmp0 t = Some (q1, q2)"
    "unat t \<le> unat (q1 * q2)" "unat (q1 * q2) \<le> 49"
    using postdiv_table_range [of t] by (metis One_nat_def Suc_leI neq0_conv)
  have s: "unat (p1 * p2) = unat t" if "unat t \<le> 7"
    using postdiv_small [OF that] assms(1) by simp
  show ?thesis
    using t0 q assms(1) s by auto
qed

lemma pll_candidate_nat:
  assumes "r \<noteq> 0" and "unat R < 2 ^ 32" and "R \<noteq> 0"
    and "pll_candidate R 25000000 r f = Inr (Some c)"
  obtains p where "800000000 \<le> 25000000 * unat f div unat r"
    and "25000000 * unat f div unat r \<le> 3200000000"
    and "1 \<le> 25000000 div unat r * unat f div unat R"
    and "25000000 div unat r * unat f div unat R \<le> p" and "p \<le> 49"
    and "25000000 div unat r * unat f div unat R \<le> 7 \<Longrightarrow>
           p = 25000000 div unat r * unat f div unat R"
    and "unat (freq c) = 25000000 * unat f div unat r div p"
    and "refdiv c = r" and "fbdiv c = f"
proof -
  obtain v t where v: "unat v = 25000000 * unat f div unat r"
    and t: "unat t = 25000000 div unat r * unat f div unat R"
    and eq: "pll_candidate R 25000000 r f =
          (if v < PLL_FOUTVCO_MIN \<or> PLL_FOUTVCO_MAX < v then Inr None
           else case postdiv_of_tmp0 t of
                  None \<Rightarrow> Inr None
                | Some (p1, p2) \<Rightarrow>
                    if p1 * p2 = 0 then Inl DivideByZero
                    else Inr (Some \<lparr>freq = v div ucast (p1 * p2), fbdiv = f, postdiv1 = p1,
                                    postdiv2 = p2, refdiv = r\<rparr>))"
    using pll_candidate_25M [OF assms(1-3), of f] by blast
  have rng: "\<not> (v < PLL_FOUTVCO_MIN \<or> PLL_FOUTVCO_MAX < v)"
    using assms(4) unfolding eq by (auto split: if_splits)
  then obtain p1 p2 where pd: "postdiv_of_tmp0 t = Some (p1, p2)"
    using assms(4) unfolding eq by (auto split: if_splits option.splits)
  have nz: "p1 * p2 \<noteq> 0"
    using assms(4) rng pd unfolding eq by (auto split: if_splits)
  have c: "c = \<lparr>freq = v div ucast (p1 * p2), fbdiv = f, postdiv1 = p1,
                  postdiv2 = p2, refdiv = r\<rparr>"
    using assms(4) rng pd nz unfolding eq by simp
  have fr: "unat (freq c) = unat v div unat (p1 * p2)"
    by (simp add: c unat_div unat_ucast_u32_u64)
  note pr = postdiv_some_range [OF pd nz]
  show ?thesis
  proof (rule that [of "unat (p1 * p2)"])
    show "800000000 \<le> 25000000 * unat f div unat r"
      using rng v by (simp add: vco_range_nat)
    show "25000000 * unat f div unat r \<le> 3200000000"
      using rng v by (simp add: vco_range_nat)
    show "1 \<le> 25000000 div unat r * unat f div unat R"
      using pr t by simp
    show "25000000 div unat r * unat f div unat R \<le> unat (p1 * p2)"
      using pr t by simp
    show "unat (p1 * p2) \<le> 49"
      using pr by simp
    show "unat (p1 * p2) = 25000000 div unat r * unat f div unat R"
      if "25000000 div unat r * unat f div unat R \<le> 7"
      using pr t that by simp
    show "unat (freq c) = 25000000 * unat f div unat r div unat (p1 * p2)"
      using fr v by simp
    show "refdiv c = r" "fbdiv c = f"
      by (simp_all add: c)
  qed
qed

lemma div_mult_le_succ:
  fixes a f r :: nat
  assumes "0 < r"
  shows "a * f div r \<le> (a div r) * f + f"
proof -
  have "a * f = (a div r * r + a mod r) * f"
    by simp
  also have "\<dots> = a mod r * f + a div r * f * r"
    by (simp only: algebra_simps)
  finally have "a * f div r = (a mod r * f + a div r * f * r) div r"
    by simp
  also have "\<dots> = a div r * f + a mod r * f div r"
    using assms by simp
  finally have e: "a * f div r = a div r * f + a mod r * f div r" .
  have "a mod r * f \<le> r * f"
    using assms by (intro mult_le_mono1) simp
  then have "a mod r * f div r \<le> r * f div r"
    by (rule div_le_mono)
  then have "a mod r * f div r \<le> f"
    using assms by simp
  then show ?thesis
    using e by simp
qed

lemma pll_candidate_no_fault:
  assumes "r \<noteq> 0" and "unat f \<le> 320" and "R \<noteq> 0" and "unat R \<le> 799999680"
  shows "\<exists>c. pll_candidate R 25000000 r f = Inr c"
proof -
  have R32: "unat R < 2 ^ 32"
    using assms(4) by simp
  have rn: "0 < unat r"
    using assms(1) by (simp add: unat_gt_0)
  have Rn: "0 < unat R"
    using assms(3) by (simp add: unat_gt_0)
  obtain v t where v: "unat v = 25000000 * unat f div unat r"
    and t: "unat t = 25000000 div unat r * unat f div unat R"
    and eq: "pll_candidate R 25000000 r f =
          (if v < PLL_FOUTVCO_MIN \<or> PLL_FOUTVCO_MAX < v then Inr None
           else case postdiv_of_tmp0 t of
                  None \<Rightarrow> Inr None
                | Some (p1, p2) \<Rightarrow>
                    if p1 * p2 = 0 then Inl DivideByZero
                    else Inr (Some \<lparr>freq = v div ucast (p1 * p2), fbdiv = f, postdiv1 = p1,
                                    postdiv2 = p2, refdiv = r\<rparr>))"
    using pll_candidate_25M [OF assms(1) R32 assms(3), of f] by blast
  show ?thesis
  proof (cases "v < PLL_FOUTVCO_MIN \<or> PLL_FOUTVCO_MAX < v")
    case True
    then show ?thesis
      unfolding eq by simp
  next
    case False
    then have v8: "800000000 \<le> unat v"
      by (simp add: vco_range_nat)
    have "unat v \<le> 25000000 div unat r * unat f + unat f"
      unfolding v using rn by (rule div_mult_le_succ)
    then have "unat R \<le> 25000000 div unat r * unat f"
      using v8 assms(2,4) by simp
    then have "1 \<le> 25000000 div unat r * unat f div unat R"
      using Rn by (simp add: Suc_le_eq div_greater_zero_iff)
    then have t1: "1 \<le> unat t"
      using t by simp
    show ?thesis
    proof (cases "postdiv_of_tmp0 t")
      case None
      then show ?thesis
        unfolding eq using False by simp
    next
      case (Some pp)
      obtain p1 p2 where pp: "pp = (p1, p2)"
        by (cases pp)
      have t50: "unat t \<le> 49"
        using Some postdiv_above_table_nat [of t] by (cases "50 \<le> unat t") auto
      obtain q1 q2 where q: "postdiv_of_tmp0 t = Some (q1, q2)" "unat t \<le> unat (q1 * q2)"
        using postdiv_table_range [OF t1 t50] by blast
      then have "unat (p1 * p2) \<noteq> 0"
        using Some pp t1 by auto
      then have "p1 * p2 \<noteq> 0"
        by (simp add: unat_eq_zero)
      then show ?thesis
        unfolding eq using False Some pp by simp
    qed
  qed
qed

section \<open>The check of the reference input\<close>

lemma fref_25M: "PLL_FREF_SG2042 = 25000000"
  by (simp add: PLL_FREF_SG2042_def MHZ_def KHZ_def)

lemma pll_visited_nat:
  assumes "pll_visited P r f"
  shows "r \<noteq> 0 \<and> 1 \<le> unat r \<and> unat r \<le> 63 \<and> 16 \<le> unat f \<and> unat f \<le> 320"
proof -
  have "1 \<le> unat r \<and> unat r \<le> 63 \<and> 16 \<le> unat f \<and> unat f \<le> 320"
    using assms
    by (simp add: pll_visited_def REFDIV_MIN_def REFDIV_MAX_def FBDIV_MIN_def FBDIV_MAX_def
        word_le_nat_alt)
  moreover from this have "r \<noteq> 0"
    by auto
  ultimately show ?thesis
    by simp
qed

lemma abs_diff_nat:
  "unat (abs_diff a b) = (if unat b < unat a then unat a - unat b else unat b - unat a)"
  by (simp add: abs_diff_def word_less_nat_alt unat_sub word_le_nat_alt)

lemma solver_returns:
  assumes "PLL_FOUTPOSTDIV_MIN \<le> R" and "unat R \<le> 799999680"
    and "pll_visited 25000000 r0 f0" and "pll_candidate R 25000000 r0 f0 = Inr (Some c0)"
    and "abs_diff (freq c0) R < R"
  shows "\<exists>b. sg2042_get_pll_ctl_setting best0 R 25000000 = Inr (0, b)"
proof -
  have Rn: "16000000 \<le> unat R"
    using assms(1) by (simp add: PLL_FOUTPOSTDIV_MIN_def MHZ_def KHZ_def word_le_nat_alt)
  then have Rnz: "R \<noteq> 0"
    by auto
  have Rmax: "R \<le> PLL_FOUTPOSTDIV_MAX"
    using assms(2) by (simp add: PLL_FOUTPOSTDIV_MAX_def MHZ_def KHZ_def word_le_nat_alt)
  note eq = solver_in_range [OF fref_25M [symmetric] assms(1) Rmax, of best0]
  have tot: "\<forall>r' f'. REFDIV_MIN \<le> r' \<and> r' \<le> REFDIV_MAX \<and> FBDIV_MIN \<le> f' \<and> f' \<le> FBDIV_MAX \<longrightarrow>
             (\<exists>c. pll_candidate R 25000000 r' f' = Inr c)"
  proof (intro allI impI)
    fix r' f' :: u32
    assume a: "REFDIV_MIN \<le> r' \<and> r' \<le> REFDIV_MAX \<and> FBDIV_MIN \<le> f' \<and> f' \<le> FBDIV_MAX"
    then have "1 \<le> unat r'" and f: "unat f' \<le> 320"
      by (simp_all add: REFDIV_MIN_def FBDIV_MAX_def word_le_nat_alt)
    then have "r' \<noteq> 0"
      by auto
    then show "\<exists>c. pll_candidate R 25000000 r' f' = Inr c"
      using f Rnz assms(2) by (rule pll_candidate_no_fault)
  qed
  have "REFDIV_MIN \<noteq> 0"
    by (simp add: REFDIV_MIN_def)
  from refdiv_loop_total [OF tot this] obtain ret b
    where loop: "refdiv_loop R 25000000 REFDIV_MIN zero_ctrl = Inr (ret, b)"
    by blast
  note I = refdiv_loop_inv [OF loop]
  have v: "REFDIV_MIN \<le> r0 \<and> r0 \<le> REFDIV_MAX \<and> FBDIV_MIN \<le> f0 \<and> f0 \<le> FBDIV_MAX \<and>
           10 < (25000000 :: u64) div ucast r0"
    using assms(3) unfolding pll_visited_def .
  have "abs_diff (freq b) R \<le> abs_diff (freq c0) R"
    using I v assms(4) by blast
  then have "abs_diff (freq b) R < R"
    using assms(5) by simp
  then have "freq b \<noteq> 0"
    by (auto simp: abs_diff_zero)
  then show ?thesis
    unfolding eq loop by simp
qed

lemma pll_candidate_16M_3_96:
  "pll_candidate 16000000 25000000 3 96 =
     Inr (Some \<lparr>freq = 16326530, fbdiv = 96, postdiv1 = 7, postdiv2 = 7, refdiv = 3\<rparr>)"
  by code_simp

lemma pll_visited_3_96: "pll_visited 25000000 3 96"
  by (simp add: pll_visited_def REFDIV_MIN_def REFDIV_MAX_def FBDIV_MIN_def FBDIV_MAX_def)









section \<open>The search returns a setting\<close>

lemma abs_diff_less:
  "0 < unat a \<Longrightarrow> unat a < 2 * unat R \<Longrightarrow> unat (abs_diff a R) < unat R"
  unfolding abs_diff_nat by (cases "unat R < unat a") simp_all

lemma pll_visited_1_32: "pll_visited 25000000 1 32"
  by (simp add: pll_visited_def REFDIV_MIN_def REFDIV_MAX_def FBDIV_MIN_def FBDIV_MAX_def)

lemma pll_candidate_1_32:
  assumes "16000001 \<le> unat R" and "unat R \<le> 800000000"
  shows "\<exists>c. pll_candidate R 25000000 1 32 = Inr (Some c) \<and> abs_diff (freq c) R < R"
proof -
  have R32: "unat R < 2 ^ 32"
    using assms(2) by simp
  have Rnz: "R \<noteq> 0"
    using assms(1) by auto
  have Rp: "0 < unat R"
    using assms(1) by simp
  obtain v t where v0: "unat v = 25000000 * unat (32 :: u32) div unat (1 :: u32)"
    and t0: "unat t = 25000000 div unat (1 :: u32) * unat (32 :: u32) div unat R"
    and eq: "pll_candidate R 25000000 1 32 =
          (if v < PLL_FOUTVCO_MIN \<or> PLL_FOUTVCO_MAX < v then Inr None
           else case postdiv_of_tmp0 t of
                  None \<Rightarrow> Inr None
                | Some (p1, p2) \<Rightarrow>
                    if p1 * p2 = 0 then Inl DivideByZero
                    else Inr (Some \<lparr>freq = v div ucast (p1 * p2), fbdiv = 32, postdiv1 = p1,
                                    postdiv2 = p2, refdiv = 1\<rparr>))"
    using pll_candidate_25M [OF _ R32 Rnz, of 1 32] by auto
  have v: "unat v = 800000000"
    using v0 by simp
  have t: "unat t = 800000000 div unat R"
    using t0 by simp
  have rng: "\<not> (v < PLL_FOUTVCO_MIN \<or> PLL_FOUTVCO_MAX < v)"
    using v by (simp add: vco_range_nat)
  have t1: "1 \<le> unat t"
    unfolding t using assms(2) Rp by (simp add: Suc_le_eq div_greater_zero_iff)
  have "800000000 < 50 * unat R"
    using assms(1) by simp
  then have "800000000 div unat R < 50"
    using Rp by (simp add: div_less_iff_less_mult)
  then have t49: "unat t \<le> 49"
    unfolding t by simp
  obtain p1 p2 where pd: "postdiv_of_tmp0 t = Some (p1, p2)"
    and tp: "unat t \<le> unat (p1 * p2)" and p49: "unat (p1 * p2) \<le> 49"
    using postdiv_table_range [OF t1 t49] by blast
  define p where "p = unat (p1 * p2)"
  have p0: "0 < p"
    using t1 tp by (simp add: p_def)
  then have nz: "p1 * p2 \<noteq> 0"
    by (auto simp: p_def)
  define c where "c = \<lparr>freq = v div ucast (p1 * p2), fbdiv = 32, postdiv1 = p1,
                                    postdiv2 = p2, refdiv = 1 :: u32\<rparr>"
  have cand: "pll_candidate R 25000000 1 32 = Inr (Some c)"
    unfolding eq c_def using rng pd nz by simp
  have fr: "unat (freq c) = 800000000 div p"
    by (simp add: c_def unat_div unat_ucast_u32_u64 v p_def)
  have lo: "0 < unat (freq c)"
    unfolding fr using p0 p49 by (simp add: div_greater_zero_iff p_def)
  define n where "n = unat R * unat t"
  have "800000000 < unat R + 800000000 div unat R * unat R"
    using Rp by (rule dividend_less_div_times)
  then have "800000000 < unat R + n"
    by (simp add: t n_def mult.commute)
  moreover have "unat R \<le> n"
    using t1 by (simp add: n_def)
  ultimately have "800000000 < 2 * n"
    by simp
  moreover have "2 * n = (2 * unat R) * unat t"
    by (simp add: n_def)
  ultimately have "800000000 < (2 * unat R) * unat t"
    by simp
  then have "800000000 div unat t < 2 * unat R"
    using t1 by (simp only: div_less_iff_less_mult Suc_le_eq One_nat_def)
  moreover have "800000000 div p \<le> 800000000 div unat t"
    using t1 tp by (intro div_le_mono2) (simp_all add: p_def)
  ultimately have hi: "unat (freq c) < 2 * unat R"
    using fr by simp
  have "unat (abs_diff (freq c) R) < unat R"
    using lo hi by (rule abs_diff_less)
  then have "abs_diff (freq c) R < R"
    by (simp add: word_less_nat_alt)
  with cand show ?thesis
    by blast
qed

lemma solver_total:
  assumes "PLL_FOUTPOSTDIV_MIN \<le> R" and "unat R \<le> 799999680"
  shows "\<exists>b. sg2042_get_pll_ctl_setting best0 R 25000000 = Inr (0, b)"
proof (cases "R = 16000000")
  case True
  have c: "abs_diff (freq \<lparr>freq = 16326530, fbdiv = 96, postdiv1 = 7, postdiv2 = 7, refdiv = 3\<rparr>)
             16000000 < (16000000 :: u64)"
    by (simp add: abs_diff_def)
  show ?thesis
    using solver_returns [OF assms(1,2) pll_visited_3_96, of _ best0] pll_candidate_16M_3_96 c
    unfolding True by blast
next
  case False
  have "16000000 \<le> unat R"
    using assms(1) by (simp add: PLL_FOUTPOSTDIV_MIN_def MHZ_def KHZ_def word_le_nat_alt)
  moreover have "unat R \<noteq> 16000000"
    using False by (simp add: word_unat_eq_iff)
  ultimately have "16000001 \<le> unat R"
    by simp
  then obtain c where "pll_candidate R 25000000 1 32 = Inr (Some c)" "abs_diff (freq c) R < R"
    using pll_candidate_1_32 [of R] assms(2) by auto
  then show ?thesis
    using solver_returns [OF assms(1,2) pll_visited_1_32] by blast
qed


section \<open>The search and the closest setting\<close>

lemma no_near_hit:
  fixes f r T e :: nat
  assumes "25000000 * f div r = 500000000 * T + e" and "1 \<le> e" and "e \<le> 17"
    and "1 \<le> r" and "r \<le> 63"
  shows False
proof -
  define V where "V = 25000000 * f div r"
  define k where "k = 20 * r * T"
  define m where "m = r * e"
  have a: "r * V \<le> 25000000 * f"
    unfolding V_def by (rule times_div_less_eq_dividend)
  have b: "25000000 * f < r + r * V"
    unfolding V_def using assms(4) by (intro dividend_less_times_div) simp
  have rV: "r * V = 25000000 * k + m"
    unfolding V_def assms(1) k_def m_def by (simp add: algebra_simps)
  have m1: "1 \<le> m"
    using assms(2,4) by (simp add: m_def Suc_le_eq)
  have "r * e \<le> 63 * 17"
    using assms(5,3) by (rule mult_le_mono)
  then have m2: "m + r \<le> 1134"
    using assms(5) by (simp add: m_def)
  have "25000000 * k < 25000000 * f"
    using a rV m1 by simp
  then have "k + 1 \<le> f"
    by simp
  then have "25000000 * (k + 1) \<le> 25000000 * f"
    by (intro mult_le_mono2)
  then show False
    using b rV m2 by simp
qed

lemma div_mult_le_div:
  fixes a f r :: nat
  shows "a div r * f \<le> a * f div r"
proof (cases "r = 0")
  case True
  then show ?thesis by simp
next
  case False
  have "a div r * r \<le> a"
    by (rule div_times_less_eq_dividend)
  then have "a div r * r * f \<le> a * f"
    by (rule mult_le_mono1)
  then have "(a div r * f) * r div r \<le> a * f div r"
    by (intro div_le_mono) (simp add: mult_ac)
  then show ?thesis
    using False by simp
qed

lemma candidates_500M:
  assumes "pll_visited 25000000 r f"
    and "pll_candidate 500000001 25000000 r f = Inr (Some c)"
  shows "500000003 \<le> unat (freq c)"
proof -
  note n = pll_visited_nat [OF assms(1)]
  have r0: "r \<noteq> 0"
    using n by simp
  define V where "V = 25000000 * unat f div unat r"
  define T where "T = 25000000 div unat r * unat f div 500000001"
  have R: "unat (500000001 :: u64) = 500000001"
    by simp
  obtain p where v: "V \<le> 3200000000" and t1: "1 \<le> T" and tp: "T \<le> p"
    and small: "T \<le> 7 \<Longrightarrow> p = T" and fr: "unat (freq c) = V div p"
  proof -
    have "unat (500000001 :: u64) < 2 ^ 32" and "(500000001 :: u64) \<noteq> 0"
      by simp_all
    from pll_candidate_nat [OF r0 this assms(2)] show ?thesis
      using that unfolding V_def T_def R by blast
  qed
  have "25000000 div unat r * unat f \<le> V"
    unfolding V_def by (rule div_mult_le_div)
  then have TV: "T \<le> V div 500000001"
    unfolding T_def by (rule div_le_mono)
  have "V div 500000001 \<le> 3200000000 div 500000001"
    using v by (rule div_le_mono)
  then have T6: "T \<le> 6"
    using TV by simp
  then have p: "p = T"
    using small by simp
  have lo: "T * 500000001 \<le> V"
    using TV t1 by (simp add: less_eq_div_iff_mult_less_eq)
  show ?thesis
  proof (rule ccontr)
    assume "\<not> 500000003 \<le> unat (freq c)"
    then have "V div T < 500000003"
      using fr p by simp
    then have hi: "V < 500000003 * T"
      using t1 by (simp add: div_less_iff_less_mult)
    define e where "e = V - 500000000 * T"
    have "V = 500000000 * T + e" and "1 \<le> e" and "e \<le> 17"
      using lo hi t1 T6 by (simp_all add: e_def)
    then show False
      using no_near_hit [of "unat f" "unat r" T e] n unfolding V_def by simp
  qed
qed


section \<open>Properties of the search of the older driver\<close>

lemma mango_fbdiv_body_candidate:
  "mango_fbdiv_body R P r f best =
     (case mango_candidate R P r f of
        Inl e \<Rightarrow> Inl e
      | Inr None \<Rightarrow> Inr (False, best)
      | Inr (Some c) \<Rightarrow>
          if abs_diff (freq c) R < abs_diff (freq best) R then Inr (freq c = R, c)
          else Inr (False, best))"
  by (cases best)
     (simp add: mango_fbdiv_body_def mango_candidate_def Let_def
        split: sum.splits option.splits prod.splits)

lemma mango_FBDIV_MAX_less: "mango_FBDIV_MAX < 0xffffffff"
  by (simp add: mango_FBDIV_MAX_def)

lemma mango_REFDIV_MAX_less: "mango_REFDIV_MAX < 0xffffffff"
  by (simp add: mango_REFDIV_MAX_def)

lemma mango_fbdiv_loop_inv:
  assumes "mango_fbdiv_loop R P r f best = Inr (ret, b)"
  shows "(b = best \<or> (\<exists>f'. f \<le> f' \<and> f' \<le> mango_FBDIV_MAX \<and> mango_candidate R P r f' = Inr (Some b))) \<and>
         (ret \<longrightarrow> freq b = R) \<and>
         abs_diff (freq b) R \<le> abs_diff (freq best) R \<and>
         (\<forall>f' c. f \<le> f' \<and> f' \<le> mango_FBDIV_MAX \<and> mango_candidate R P r f' = Inr (Some c) \<longrightarrow>
            abs_diff (freq b) R \<le> abs_diff (freq c) R)"
  using assms
proof (induction R P r f best rule: mango_fbdiv_loop.induct)
  case (1 R P r f best)
  show ?case
  proof (cases "f < mango_FBDIV_MAX + 1")
    case False
    then have "mango_fbdiv_loop R P r f best = Inr (False, best)"
      by (subst mango_fbdiv_loop.simps) simp
    then have "ret = False" "b = best"
      using "1.prems" by simp_all
    moreover have "\<not> (f \<le> f' \<and> f' \<le> mango_FBDIV_MAX)" for f'
      using False mango_FBDIV_MAX_less by (rule u32_not_less_succ)
    ultimately show ?thesis
      by auto
  next
    case lt: True
    note rng = u32_succ_le [OF lt mango_FBDIV_MAX_less]
    have fle: "f \<le> mango_FBDIV_MAX"
      using lt by (simp add: mango_FBDIV_MAX_def word_less_nat_alt word_le_nat_alt unat_word_ariths)
    consider (fault) e where "mango_candidate R P r f = Inl e"
      | (skip) "mango_candidate R P r f = Inr None"
      | (lose) c where "mango_candidate R P r f = Inr (Some c)"
          "\<not> abs_diff (freq c) R < abs_diff (freq best) R"
      | (hit) c where "mango_candidate R P r f = Inr (Some c)"
          "abs_diff (freq c) R < abs_diff (freq best) R" "freq c = R"
      | (win) c where "mango_candidate R P r f = Inr (Some c)"
          "abs_diff (freq c) R < abs_diff (freq best) R" "freq c \<noteq> R"
    proof (cases "mango_candidate R P r f")
      case (Inl e)
      then show ?thesis by (rule fault)
    next
      case (Inr oc)
      show ?thesis
      proof (cases oc)
        case None
        with Inr show ?thesis by (intro skip) simp
      next
        case (Some c)
        with Inr have c: "mango_candidate R P r f = Inr (Some c)" by simp
        show ?thesis
          using lose [OF c] hit [OF c] win [OF c] by blast
      qed
    qed
    then show ?thesis
    proof cases
      case fault
      then have "mango_fbdiv_loop R P r f best = Inl e"
        using lt by (subst mango_fbdiv_loop.simps) (simp add: mango_fbdiv_body_candidate)
      then show ?thesis
        using "1.prems" by simp
    next
      case skip
      then have body: "mango_fbdiv_body R P r f best = Inr (False, best)"
        by (simp add: mango_fbdiv_body_candidate)
      then have "mango_fbdiv_loop R P r (f + 1) best = Inr (ret, b)"
        using "1.prems" lt by (subst (asm) mango_fbdiv_loop.simps) simp
      from "1.IH" [OF lt body refl _ this] have IH:
        "(b = best \<or> (\<exists>f'. f + 1 \<le> f' \<and> f' \<le> mango_FBDIV_MAX \<and> mango_candidate R P r f' = Inr (Some b))) \<and>
         (ret \<longrightarrow> freq b = R) \<and>
         abs_diff (freq b) R \<le> abs_diff (freq best) R \<and>
         (\<forall>f' c. f + 1 \<le> f' \<and> f' \<le> mango_FBDIV_MAX \<and> mango_candidate R P r f' = Inr (Some c) \<longrightarrow>
            abs_diff (freq b) R \<le> abs_diff (freq c) R)"
        by simp
      show ?thesis
        using IH skip by (auto simp: rng)
    next
      case lose
      then have body: "mango_fbdiv_body R P r f best = Inr (False, best)"
        by (simp add: mango_fbdiv_body_candidate)
      then have "mango_fbdiv_loop R P r (f + 1) best = Inr (ret, b)"
        using "1.prems" lt by (subst (asm) mango_fbdiv_loop.simps) simp
      from "1.IH" [OF lt body refl _ this] have IH:
        "(b = best \<or> (\<exists>f'. f + 1 \<le> f' \<and> f' \<le> mango_FBDIV_MAX \<and> mango_candidate R P r f' = Inr (Some b))) \<and>
         (ret \<longrightarrow> freq b = R) \<and>
         abs_diff (freq b) R \<le> abs_diff (freq best) R \<and>
         (\<forall>f' c. f + 1 \<le> f' \<and> f' \<le> mango_FBDIV_MAX \<and> mango_candidate R P r f' = Inr (Some c) \<longrightarrow>
            abs_diff (freq b) R \<le> abs_diff (freq c) R)"
        by simp
      have "abs_diff (freq b) R \<le> abs_diff (freq c) R"
        using IH lose(2) by (meson order_trans linorder_not_less)
      then show ?thesis
        using IH lose(1) by (auto simp: rng)
    next
      case hit
      then have "mango_fbdiv_loop R P r f best = Inr (True, c)"
        using lt by (subst mango_fbdiv_loop.simps) (simp add: mango_fbdiv_body_candidate)
      then have "ret = True" "b = c"
        using "1.prems" by simp_all
      then show ?thesis
        using hit fle by (auto simp: abs_diff_same)
    next
      case win
      then have body: "mango_fbdiv_body R P r f best = Inr (False, c)"
        by (simp add: mango_fbdiv_body_candidate)
      then have "mango_fbdiv_loop R P r (f + 1) c = Inr (ret, b)"
        using "1.prems" lt by (subst (asm) mango_fbdiv_loop.simps) simp
      from "1.IH" [OF lt body refl _ this] have IH:
        "(b = c \<or> (\<exists>f'. f + 1 \<le> f' \<and> f' \<le> mango_FBDIV_MAX \<and> mango_candidate R P r f' = Inr (Some b))) \<and>
         (ret \<longrightarrow> freq b = R) \<and>
         abs_diff (freq b) R \<le> abs_diff (freq c) R \<and>
         (\<forall>f' c. f + 1 \<le> f' \<and> f' \<le> mango_FBDIV_MAX \<and> mango_candidate R P r f' = Inr (Some c) \<longrightarrow>
            abs_diff (freq b) R \<le> abs_diff (freq c) R)"
        by simp
      have le: "abs_diff (freq b) R \<le> abs_diff (freq best) R"
        using IH win(2) by (meson order_trans less_imp_le)
      have "b = best \<or> (\<exists>f'. f \<le> f' \<and> f' \<le> mango_FBDIV_MAX \<and> mango_candidate R P r f' = Inr (Some b))"
        using IH win(1) fle by (auto simp: rng)
      then show ?thesis
        using IH win(1) le by (auto simp: rng)
    qed
  qed
qed




lemma mango_refdiv_loop_inv:
  assumes "mango_refdiv_loop R P r best = Inr (ret, b)"
  shows "(b = best \<or>
          (\<exists>r' f'. r \<le> r' \<and> r' \<le> mango_REFDIV_MAX \<and> mango_FBDIV_MIN \<le> f' \<and>
                   f' \<le> mango_FBDIV_MAX \<and> mango_candidate R P r' f' = Inr (Some b))) \<and>
         (ret \<longrightarrow> freq b = R) \<and>
         abs_diff (freq b) R \<le> abs_diff (freq best) R \<and>
         (\<forall>r' f' c. r \<le> r' \<and> r' \<le> mango_REFDIV_MAX \<and> mango_FBDIV_MIN \<le> f' \<and>
                   f' \<le> mango_FBDIV_MAX \<and> mango_candidate R P r' f' = Inr (Some c) \<longrightarrow>
            abs_diff (freq b) R \<le> abs_diff (freq c) R)"
  using assms
proof (induction R P r best rule: mango_refdiv_loop.induct)
  case (1 R P r best)
  show ?case
  proof (cases "r < mango_REFDIV_MAX + 1")
    case False
    then have "mango_refdiv_loop R P r best = Inr (False, best)"
      by (subst mango_refdiv_loop.simps) simp
    then have "ret = False" "b = best"
      using "1.prems" by simp_all
    moreover have "\<not> (r \<le> r' \<and> r' \<le> mango_REFDIV_MAX)" for r'
      using False mango_REFDIV_MAX_less by (rule u32_not_less_succ)
    ultimately show ?thesis
      by auto
  next
    case lt: True
    note rng = u32_succ_le [OF lt mango_REFDIV_MAX_less]
    have rle: "r \<le> mango_REFDIV_MAX"
      using lt
      by (simp add: mango_REFDIV_MAX_def word_less_nat_alt word_le_nat_alt unat_word_ariths)
    obtain ret1 b1 where inner: "mango_fbdiv_loop R P r mango_FBDIV_MIN best = Inr (ret1, b1)"
      using "1.prems" lt
      by (subst (asm) mango_refdiv_loop.simps) (auto split: sum.splits)
    note I1 = mango_fbdiv_loop_inv [OF inner]
    show ?thesis
    proof (cases ret1)
      case True
      then have "mango_refdiv_loop R P r best = Inr (True, b1)"
        using lt inner by (subst mango_refdiv_loop.simps) simp
      then have rb: "ret = True" "b = b1"
        using "1.prems" by simp_all
      have fr: "freq b1 = R"
        using I1 True by simp
      have "b1 = best \<or>
          (\<exists>r' f'. r \<le> r' \<and> r' \<le> mango_REFDIV_MAX \<and> mango_FBDIV_MIN \<le> f' \<and>
                   f' \<le> mango_FBDIV_MAX \<and> mango_candidate R P r' f' = Inr (Some b1))"
        using I1 rle by blast
      then show ?thesis
        using rb fr by (simp add: abs_diff_same)
    next
      case False
      then have "mango_refdiv_loop R P (r + 1) b1 = Inr (ret, b)"
        using "1.prems" lt inner by (subst (asm) mango_refdiv_loop.simps) simp
      from "1.IH" [OF lt inner refl False this] have IH:
        "(b = b1 \<or>
          (\<exists>r' f'. r + 1 \<le> r' \<and> r' \<le> mango_REFDIV_MAX \<and> mango_FBDIV_MIN \<le> f' \<and>
                   f' \<le> mango_FBDIV_MAX \<and> mango_candidate R P r' f' = Inr (Some b))) \<and>
         (ret \<longrightarrow> freq b = R) \<and>
         abs_diff (freq b) R \<le> abs_diff (freq b1) R \<and>
         (\<forall>r' f' c. r + 1 \<le> r' \<and> r' \<le> mango_REFDIV_MAX \<and> mango_FBDIV_MIN \<le> f' \<and>
                   f' \<le> mango_FBDIV_MAX \<and> mango_candidate R P r' f' = Inr (Some c) \<longrightarrow>
            abs_diff (freq b) R \<le> abs_diff (freq c) R)"
        by simp
      have a: "b = best \<or>
          (\<exists>r' f'. r \<le> r' \<and> r' \<le> mango_REFDIV_MAX \<and> mango_FBDIV_MIN \<le> f' \<and>
                   f' \<le> mango_FBDIV_MAX \<and> mango_candidate R P r' f' = Inr (Some b))"
      proof -
        consider "b = b1" "b1 = best"
          | f' where "b = b1" "mango_FBDIV_MIN \<le> f'" "f' \<le> mango_FBDIV_MAX"
              "mango_candidate R P r f' = Inr (Some b1)"
          | r' f' where "r + 1 \<le> r'" "r' \<le> mango_REFDIV_MAX" "mango_FBDIV_MIN \<le> f'"
              "f' \<le> mango_FBDIV_MAX" "mango_candidate R P r' f' = Inr (Some b)"
          using IH I1 by blast
        then show ?thesis
        proof cases
          case 1
          then show ?thesis by simp
        next
          case 2
          then show ?thesis using rle by blast
        next
          case 3
          then have "r \<le> r'" by (simp add: rng)
          with 3 show ?thesis by blast
        qed
      qed
      have c: "abs_diff (freq b) R \<le> abs_diff (freq best) R"
        using IH I1 by (meson order_trans)
      have d: "abs_diff (freq b) R \<le> abs_diff (freq c) R"
        if "r \<le> r'" "r' \<le> mango_REFDIV_MAX" "mango_FBDIV_MIN \<le> f'" "f' \<le> mango_FBDIV_MAX"
          "mango_candidate R P r' f' = Inr (Some c)" for r' f' c
      proof (cases "r' = r")
        case True
        then have "abs_diff (freq b1) R \<le> abs_diff (freq c) R"
          using I1 that by blast
        then show ?thesis
          using IH by (meson order_trans)
      next
        case False
        then have "r + 1 \<le> r'"
          using that(1) by (simp add: rng)
        then show ?thesis
          using IH that by blast
      qed
      show ?thesis
        using a c d IH by blast
    qed
  qed
qed

lemma mango_solver_inv:
  assumes "mango_get_pll_ctl_setting best R P = Inr b"
  shows "(b = best \<or> (\<exists>r f. mango_visited r f \<and> mango_candidate R (ucast P) r f = Inr (Some b))) \<and>
         abs_diff (freq b) R \<le> abs_diff (freq best) R \<and>
         (\<forall>r f c. mango_visited r f \<and> mango_candidate R (ucast P) r f = Inr (Some c) \<longrightarrow>
            abs_diff (freq b) R \<le> abs_diff (freq c) R)"
proof -
  obtain ret where loop: "mango_refdiv_loop R (ucast P) mango_REFDIV_MIN best = Inr (ret, b)"
    using assms by (auto simp: mango_get_pll_ctl_setting_def split: sum.splits)
  note I = mango_refdiv_loop_inv [OF loop]
  show ?thesis
    using I unfolding mango_visited_def by blast
qed

end
